theory Spec2Isabelle
  imports Complex_Main "HOL-Library.Word"
begin

section \<open>Machine types, failures and loops\<close>

text \<open>
  The three layers are C++ classes over the member types of tiny-cnn's base layer.
  \<^item> \<open>cnn_size_t\<close> and \<open>serial_size_t\<close> (the layer-size types of tiny-cnn and tiny-dnn,
    declared in their \<open>config.h\<close> as \<open>std::uint32_t\<close>) are 32-bit words; \<open>size_t\<close> and
    \<open>unsigned long long\<close> are 64-bit words (an LP64 platform). Word arithmetic wraps
    around, as unsigned arithmetic in C++ does. An \<open>int\<close> is an integer between
    \<open>- (2 ^ 31)\<close> and \<open>2 ^ 31 - 1\<close>; an operation that leaves this range is undefined
    behaviour.
  \<^item> \<open>float_t\<close> is modelled by \<open>real\<close>: sums of \<open>+1\<close>, \<open>-1\<close> and \<open>0\<close> and the test
    \<open>x >= 0\<close> on a finite number are exact in floating point as long as the counts stay
    below \<open>2 ^ 24\<close>. The one place that multiplies, divides and subtracts arbitrary
    \<open>float_t\<close> values, the threshold folding, takes the rounding of \<open>float_t\<close> as a
    parameter. Infinities and NaN are outside the model.
  \<^item> \<open>std::vector<T>\<close> is a list; \<open>operator[]\<close> outside the vector is undefined behaviour,
    which the model reports as the failure \<open>Undefined\<close> instead of continuing.
\<close>

type_synonym serial_size_t = "32 word"
type_synonym size_t = "64 word"
type_synonym float_t = real
type_synonym vec_t = "real list"

datatype error =
    Thrown string  \<comment> \<open>\<open>throw "..."\<close>: the thrown C string\<close>
  | Undefined      \<comment> \<open>undefined behaviour: \<open>operator[]\<close> out of range, a read of an
                       uninitialised variable, signed overflow, a float-to-int conversion
                       out of range\<close>
  | Diverges       \<comment> \<open>a loop whose 32-bit counter can never reach its 64-bit bound\<close>

definition bind_res :: "error + 'a \<Rightarrow> ('a \<Rightarrow> error + 'b) \<Rightarrow> error + 'b" where
  "bind_res m f = (case m of Inl e \<Rightarrow> Inl e | Inr x \<Rightarrow> f x)"

definition vread :: "'a list \<Rightarrow> nat \<Rightarrow> error + 'a" where
  "vread xs i = (if i < length xs then Inr (xs ! i) else Inl Undefined)"

definition vwrite :: "'a list \<Rightarrow> nat \<Rightarrow> 'a \<Rightarrow> error + 'a list" where
  "vwrite xs i v = (if i < length xs then Inr (xs[i := v]) else Inl Undefined)"

text \<open>A counted \<open>for\<close> loop: the body runs once per index, in order, on the state left
  by the previous iteration, and the first failure ends the loop.\<close>

fun for_loop :: "nat list \<Rightarrow> (nat \<Rightarrow> 's \<Rightarrow> error + 's) \<Rightarrow> 's \<Rightarrow> error + 's" where
  "for_loop [] body s = Inr s"
| "for_loop (i # is) body s = bind_res (body i s) (for_loop is body)"

section \<open>Bipolar encoder\<close>

text \<open>\<open>float2bipolar(in, out)\<close>: \<open>for (i = 0; i < in.size(); i++) out[i] = in[i] >= 0;\<close>.
  The loop is bounded by the input's size, and \<open>out\<close> is written through \<open>operator[]\<close>.
  The three classes carry the same function; tiny-cnn's copy counts with an
  \<open>unsigned int\<close>, which cannot reach a size of \<open>2 ^ 32\<close> or more.\<close>

definition float2bipolar :: "vec_t \<Rightarrow> bool list \<Rightarrow> error + bool list" where
  "float2bipolar inp out =
     for_loop [0..<length inp] (\<lambda>i out. vwrite out i (inp ! i \<ge> 0)) out"

definition float2bipolar_uint :: "vec_t \<Rightarrow> bool list \<Rightarrow> error + bool list" where
  "float2bipolar_uint inp out =
     (if 2 ^ 32 \<le> length inp then Inl Diverges else float2bipolar inp out)"

section \<open>Similarity accumulation\<close>

text \<open>The two accumulation rules of the inner loops:
  \<open>acc += (w == x) ? +1 : -1\<close> (signed mode) and \<open>acc += (w == x) ? +1 : 0\<close>
  (popcount mode). They are used at \<open>float_t\<close> in the fully-connected layers and at \<open>int\<close>
  in the convolution, so they are stated for any ring.\<close>

definition signed_step :: "bool \<Rightarrow> bool \<Rightarrow> 'a::ring_1" where
  "signed_step w x = (if w = x then 1 else - 1)"

definition popcount_step :: "bool \<Rightarrow> bool \<Rightarrow> 'a::ring_1" where
  "popcount_step w x = (if w = x then 1 else 0)"

text \<open>The accumulators of a run of the inner loop over a sequence of
  (weight bit, input bit) pairs, starting from \<open>0\<close>.\<close>

definition acc_signed :: "(bool \<times> bool) list \<Rightarrow> 'a::ring_1" where
  "acc_signed ps = fold (\<lambda>(w, x) acc. acc + signed_step w x) ps 0"

definition acc_popcount :: "(bool \<times> bool) list \<Rightarrow> 'a::ring_1" where
  "acc_popcount ps = fold (\<lambda>(w, x) acc. acc + popcount_step w x) ps 0"

definition matches :: "(bool \<times> bool) list \<Rightarrow> nat" where
  "matches ps = length (filter (\<lambda>(w, x). w = x) ps)"

section \<open>The binarized fully-connected layer (tiny-cnn)\<close>

text \<open>\<open>binarized_fc_layer<Activation>\<close>. The members \<open>in_size_\<close>, \<open>out_size_\<close>, \<open>W_\<close>,
  \<open>a_\<close>, \<open>output_\<close> belong to the base class; \<open>a_\<close> and \<open>output_\<close> hold one scratch vector
  per worker index. The activation \<open>h_.f(a, i)\<close> is the class's template parameter and
  the pointer \<open>next_\<close> to the downstream layer is the network's: both are arguments of the
  model's \<open>forward_propagation\<close>.\<close>

record binarized_fc_layer =
  fc_in_size :: serial_size_t
  fc_out_size :: serial_size_t
  fc_W :: vec_t
  fc_Wbin :: "bool list"
  fc_a :: "vec_t list"
  fc_output :: "vec_t list"

type_synonym activation = "vec_t \<Rightarrow> nat \<Rightarrow> float_t"
type_synonym next_layer = "(vec_t \<Rightarrow> nat \<Rightarrow> error + vec_t) option"

definition fc_connection_size :: "binarized_fc_layer \<Rightarrow> size_t" where
  "fc_connection_size L = ucast (fc_in_size L) * ucast (fc_out_size L)"

definition fc_fan_in_size :: "binarized_fc_layer \<Rightarrow> size_t" where
  "fc_fan_in_size L = ucast (fc_in_size L)"

definition fc_fan_out_size :: "binarized_fc_layer \<Rightarrow> size_t" where
  "fc_fan_out_size L = ucast (fc_out_size L)"

text \<open>Modelled from the spec: the base-class constructor
  \<open>Base(in_dim, out_dim, weight_dim, bias_dim)\<close> is not among the sources. It stores the
  two sizes, allocates the float weight tensor with \<open>weight_dim\<close> elements ("one per
  synaptic connection") and, for each of \<open>workers\<close> worker indices, scratch vectors of
  \<open>out_dim\<close> elements. The derived constructor then pushes \<open>connection_size()\<close> times
  \<open>false\<close>, counting with an \<open>unsigned int\<close>.\<close>

definition new_binarized_fc_layer ::
  "serial_size_t \<Rightarrow> serial_size_t \<Rightarrow> nat \<Rightarrow> error + binarized_fc_layer" where
  "new_binarized_fc_layer in_dim out_dim workers =
     (let n = unat (ucast in_dim * ucast out_dim :: size_t) in
      if 2 ^ 32 \<le> n then Inl Diverges
      else Inr \<lparr> fc_in_size = in_dim, fc_out_size = out_dim,
                 fc_W = replicate n 0,
                 fc_Wbin = replicate n False,
                 fc_a = replicate workers (replicate (unat out_dim) 0),
                 fc_output = replicate workers (replicate (unat out_dim) 0) \<rparr>)"

definition fc_post_update :: "binarized_fc_layer \<Rightarrow> error + binarized_fc_layer" where
  "fc_post_update L =
     bind_res (float2bipolar_uint (fc_W L) (fc_Wbin L)) (\<lambda>wb. Inr (L\<lparr>fc_Wbin := wb\<rparr>))"

text \<open>The body of the first \<open>for_i\<close> for output unit \<open>i\<close>:
  \<open>a[i] = 0; for (c = 0; c < in_size_; c++) a[i] += (Wbin_[c*out_size_ + i] == in_bin[c]) ? +1 : -1;\<close>
  The index \<open>c*out_size_ + i\<close> is computed in 32-bit unsigned arithmetic.\<close>

definition fc_unit :: "binarized_fc_layer \<Rightarrow> bool list \<Rightarrow> nat \<Rightarrow> vec_t \<Rightarrow> error + vec_t" where
  "fc_unit L in_bin i a =
     bind_res (vwrite a i 0) (for_loop [0..<unat (fc_in_size L)] (\<lambda>c a.
       bind_res (vread (fc_Wbin L) (unat (of_nat c * fc_out_size L + of_nat i :: serial_size_t))) (\<lambda>w.
       bind_res (vread in_bin c) (\<lambda>x.
       bind_res (vread a i) (\<lambda>v. vwrite a i (v + signed_step w x))))))"

text \<open>Modelled from the spec: \<open>for_i(parallelize_, n, f)\<close> is not among the sources; it
  calls \<open>f(i)\<close> for every \<open>i\<close> in \<open>[0, n)\<close>, and the iterations are independent, so the
  model runs them in index order.\<close>

definition fc_forward_propagation ::
  "activation \<Rightarrow> next_layer \<Rightarrow> binarized_fc_layer \<Rightarrow> vec_t \<Rightarrow> nat
     \<Rightarrow> error + (vec_t \<times> binarized_fc_layer)" where
  "fc_forward_propagation h nxt L inp index =
     bind_res (float2bipolar_uint inp (replicate (unat (fc_in_size L)) False)) (\<lambda>in_bin.
     bind_res (vread (fc_a L) index) (\<lambda>a.
     bind_res (vread (fc_output L) index) (\<lambda>out.
     bind_res (for_loop [0..<unat (fc_out_size L)] (fc_unit L in_bin) a) (\<lambda>a'.
     bind_res (for_loop [0..<unat (fc_out_size L)] (\<lambda>i out. vwrite out i (h a' i)) out) (\<lambda>out'.
       let L' = L\<lparr>fc_a := (fc_a L)[index := a'], fc_output := (fc_output L)[index := out']\<rparr>
       in (case nxt of None \<Rightarrow> Inr (out', L')
           | Some f \<Rightarrow> bind_res (f out' index) (\<lambda>r. Inr (r, L'))))))))"

text \<open>\<open>throw "Not yet implemented";\<close> is the first statement of both functions. The
  model returns the outcome together with the layer after the call.\<close>

definition fc_back_propagation ::
  "binarized_fc_layer \<Rightarrow> vec_t \<Rightarrow> nat \<Rightarrow> (error + vec_t) \<times> binarized_fc_layer" where
  "fc_back_propagation L curr_delta index = (Inl (Thrown ''Not yet implemented''), L)"

definition fc_back_propagation_2nd ::
  "binarized_fc_layer \<Rightarrow> vec_t \<Rightarrow> (error + vec_t) \<times> binarized_fc_layer" where
  "fc_back_propagation_2nd L current_delta2 = (Inl (Thrown ''Not yet implemented''), L)"

definition fc_layer_type :: string where
  "fc_layer_type = ''binarized-fully-connected''"

section \<open>The binarynet layer (tiny-dnn)\<close>

text \<open>\<open>binarynet_layer<Activation>\<close>: binarized weights, one \<open>size_t\<close> threshold per
  output unit and an optional offload hook. The hook receives its four vectors by
  non-const reference, so the model lets it return all four.\<close>

type_synonym BinMatVecMult =
  "bool list \<Rightarrow> size_t list \<Rightarrow> bool list \<Rightarrow> bool list
     \<Rightarrow> bool list \<times> size_t list \<times> bool list \<times> bool list"

record binarynet_layer =
  bn_in_size :: serial_size_t
  bn_out_size :: serial_size_t
  bn_W :: vec_t
  bn_Wbin :: "bool list"
  bn_Threshold :: "size_t list"
  bn_Offload :: "BinMatVecMult option"
  bn_a :: "vec_t list"
  bn_output :: "vec_t list"

text \<open>Modelled from the spec: the base-class constructor, as for the layer above. The
  derived constructor pushes \<open>in_size_ * out_size_\<close> (a 32-bit product) times \<open>false\<close>
  and \<open>out_size_\<close> times the threshold \<open>0\<close>.\<close>

definition new_binarynet_layer ::
  "serial_size_t \<Rightarrow> serial_size_t \<Rightarrow> BinMatVecMult option \<Rightarrow> nat \<Rightarrow> binarynet_layer" where
  "new_binarynet_layer in_dim out_dim offload workers =
     \<lparr> bn_in_size = in_dim, bn_out_size = out_dim,
       bn_W = replicate (unat (ucast in_dim * ucast out_dim :: size_t)) 0,
       bn_Wbin = replicate (unat (in_dim * out_dim)) False,
       bn_Threshold = replicate (unat out_dim) 0,
       bn_Offload = offload,
       bn_a = replicate workers (replicate (unat out_dim) 0),
       bn_output = replicate workers (replicate (unat out_dim) 0) \<rparr>"

definition bn_connection_size :: "binarynet_layer \<Rightarrow> size_t" where
  "bn_connection_size L =
     ucast (bn_in_size L) * ucast (bn_out_size L) + ucast (2 * bn_out_size L)"

definition bn_fan_in_size :: "binarynet_layer \<Rightarrow> size_t" where
  "bn_fan_in_size L = ucast (bn_in_size L)"

definition bn_fan_out_size :: "binarynet_layer \<Rightarrow> size_t" where
  "bn_fan_out_size L = ucast (bn_out_size L)"

definition bn_post_update :: "binarynet_layer \<Rightarrow> error + binarynet_layer" where
  "bn_post_update L =
     bind_res (float2bipolar (bn_W L) (bn_Wbin L)) (\<lambda>wb. Inr (L\<lparr>bn_Wbin := wb\<rparr>))"

subsection \<open>Threshold folding\<close>

text \<open>The product, the quotient and the difference of
  \<open>int thres = mean - (beta / (gamma * invstd));\<close> are \<open>float_t\<close> operations: each gives the
  exact result rounded to \<open>float_t\<close> (\<open>float\<close> or \<open>double\<close>, as \<open>config.h\<close> chooses). The
  rounding is the parameter \<open>rnd\<close>; a number that \<open>float_t\<close> represents is a fixed point of
  it. The initialisation then converts the \<open>float_t\<close> to \<open>int\<close>: the value is truncated
  towards zero, and the conversion is undefined when the truncated value is not an \<open>int\<close>.
  A zero divisor gives an infinity or a NaN, for which the conversion is undefined as
  well.\<close>

type_synonym rounding = "real \<Rightarrow> real"

definition in_int_range :: "int \<Rightarrow> bool" where
  "in_int_range k = (- (2 ^ 31) \<le> k \<and> k < 2 ^ 31)"

definition float_to_int :: "float_t \<Rightarrow> error + int" where
  "float_to_int x =
     (let t = (if 0 \<le> x then \<lfloor>x\<rfloor> else \<lceil>x\<rceil>)
      in if in_int_range t then Inr t else Inl Undefined)"

definition raw_threshold ::
  "rounding \<Rightarrow> float_t \<Rightarrow> float_t \<Rightarrow> float_t \<Rightarrow> float_t \<Rightarrow> error + int" where
  "raw_threshold rnd mean gamma invstd beta =
     (if rnd (gamma * invstd) = 0 then Inl Undefined
      else float_to_int (rnd (mean - rnd (beta / rnd (gamma * invstd)))))"

text \<open>\<open>Wbin_[c * out_size_ + index] = !Wbin_[c * out_size_ + index]\<close> for every
  \<open>c < in_size_\<close>: the product is 32-bit, the sum with the \<open>size_t\<close> index 64-bit.\<close>

definition bn_weight_index :: "binarynet_layer \<Rightarrow> nat \<Rightarrow> size_t \<Rightarrow> nat" where
  "bn_weight_index L c index =
     unat (ucast (of_nat c * bn_out_size L :: serial_size_t) + index :: size_t)"

definition flip_column :: "binarynet_layer \<Rightarrow> size_t \<Rightarrow> bool list \<Rightarrow> error + bool list" where
  "flip_column L index wbin =
     for_loop [0..<unat (bn_in_size L)] (\<lambda>c wb.
       bind_res (vread wb (bn_weight_index L c index)) (\<lambda>b.
       vwrite wb (bn_weight_index L c index) (\<not> b))) wbin"

text \<open>The statement \<open>if ((gamma * invstd) < 0) { thres = -thres; for (...) ... }\<close>: it
  leaves the threshold and the weight bits that the store below uses. Negating the
  least \<open>int\<close> is undefined.\<close>

definition flip_if_negative ::
  "rounding \<Rightarrow> binarynet_layer \<Rightarrow> size_t \<Rightarrow> float_t \<Rightarrow> float_t \<Rightarrow> int
     \<Rightarrow> error + (int \<times> bool list)" where
  "flip_if_negative rnd L index gamma invstd thres =
     (if rnd (gamma * invstd) < 0
      then (if in_int_range (- thres)
            then bind_res (flip_column L index (bn_Wbin L)) (\<lambda>wb. Inr (- thres, wb))
            else Inl Undefined)
      else Inr (thres, bn_Wbin L))"

text \<open>\<open>Threshold_[index] = (thres + fan_in_size()) / 2;\<close>: the \<open>int\<close> is converted to
  \<open>size_t\<close> (modulo \<open>2 ^ 64\<close>), and the sum and the division are unsigned.\<close>

definition biased_threshold :: "binarynet_layer \<Rightarrow> int \<Rightarrow> size_t" where
  "biased_threshold L thres = (word_of_int thres + bn_fan_in_size L) div 2"

definition set_threshold_from_batchnorm ::
  "rounding \<Rightarrow> binarynet_layer \<Rightarrow> size_t \<Rightarrow> float_t \<Rightarrow> float_t \<Rightarrow> float_t \<Rightarrow> float_t
     \<Rightarrow> error + binarynet_layer" where
  "set_threshold_from_batchnorm rnd L index mean gamma invstd beta =
     bind_res (raw_threshold rnd mean gamma invstd beta) (\<lambda>thres.
     bind_res (flip_if_negative rnd L index gamma invstd thres) (\<lambda>(thres', wb).
     bind_res (vwrite (bn_Threshold L) (unat index) (biased_threshold L thres')) (\<lambda>thr.
       Inr (L\<lparr>bn_Wbin := wb, bn_Threshold := thr\<rparr>))))"

subsection \<open>Forward and backward propagation\<close>

text \<open>The software kernel for output unit \<open>i\<close>:
  \<open>a[i] = 0; for (c ...) a[i] += (Wbin_[c*out_size_ + i] == in_bin[c]) ? +1 : 0;
  out[i] = a[i] >= Threshold_[i] ? +1 : -1;\<close>\<close>

definition bn_unit ::
  "binarynet_layer \<Rightarrow> bool list \<Rightarrow> nat \<Rightarrow> vec_t \<times> vec_t \<Rightarrow> error + vec_t \<times> vec_t" where
  "bn_unit L in_bin i = (\<lambda>(a, out).
     bind_res (vwrite a i 0) (\<lambda>a0.
     bind_res (for_loop [0..<unat (bn_in_size L)] (\<lambda>c a.
       bind_res (vread (bn_Wbin L) (unat (of_nat c * bn_out_size L + of_nat i :: serial_size_t))) (\<lambda>w.
       bind_res (vread in_bin c) (\<lambda>x.
       bind_res (vread a i) (\<lambda>v. vwrite a i (v + popcount_step w x))))) a0) (\<lambda>a'.
     bind_res (vread a' i) (\<lambda>v.
     bind_res (vread (bn_Threshold L) i) (\<lambda>t.
     bind_res (vwrite out i (if v \<ge> real (unat t) then 1 else - 1)) (\<lambda>out'.
       Inr (a', out')))))))"

definition bn_forward_propagation ::
  "next_layer \<Rightarrow> binarynet_layer \<Rightarrow> vec_t \<Rightarrow> nat \<Rightarrow> error + (vec_t \<times> binarynet_layer)" where
  "bn_forward_propagation nxt L inp index =
     bind_res (float2bipolar inp (replicate (unat (bn_in_size L)) False)) (\<lambda>in_bin.
     bind_res (vread (bn_a L) index) (\<lambda>a.
     bind_res (vread (bn_output L) index) (\<lambda>out.
     bind_res
       (case bn_Offload L of
          Some offload \<Rightarrow>
            (case offload in_bin (bn_Threshold L) (bn_Wbin L) (replicate (unat (bn_out_size L)) False) of
               (in_bin', thr', wbin', res) \<Rightarrow>
                 bind_res (for_loop [0..<unat (bn_out_size L)] (\<lambda>i out.
                     bind_res (vread res i) (\<lambda>r. vwrite out i (if r then 1 else - 1))) out) (\<lambda>out'.
                   Inr (a, out', L\<lparr>bn_Threshold := thr', bn_Wbin := wbin'\<rparr>)))
        | None \<Rightarrow>
            bind_res (for_loop [0..<unat (bn_out_size L)] (bn_unit L in_bin) (a, out)) (\<lambda>(a', out').
              Inr (a', out', L))) (\<lambda>(a', out', L1).
       let L' = L1\<lparr>bn_a := (bn_a L1)[index := a'], bn_output := (bn_output L1)[index := out']\<rparr>
       in (case nxt of None \<Rightarrow> Inr (out', L')
           | Some f \<Rightarrow> bind_res (f out' index) (\<lambda>r. Inr (r, L')))))))"

definition bn_back_propagation ::
  "binarynet_layer \<Rightarrow> vec_t \<Rightarrow> nat \<Rightarrow> (error + vec_t) \<times> binarynet_layer" where
  "bn_back_propagation L curr_delta index = (Inl (Thrown ''Not yet implemented''), L)"

definition bn_back_propagation_2nd ::
  "binarynet_layer \<Rightarrow> vec_t \<Rightarrow> (error + vec_t) \<times> binarynet_layer" where
  "bn_back_propagation_2nd L current_delta2 = (Inl (Thrown ''Not yet implemented''), L)"

definition bn_layer_type :: string where
  "bn_layer_type = ''binarynet-fully-connected''"

subsection \<open>Text persistence\<close>

text \<open>\<open>save\<close> writes with \<open>os << n << "\n"\<close> and \<open>load\<close> reads with \<open>is >> x\<close>. The
  stream library is the C++ standard library's; the model works on the stream's
  whitespace-separated tokens. A token is an unsigned decimal numeral, given by its value,
  or text that does not start a numeral. Extraction follows the library (C++11):
  \<^item> on a stream whose fail bit is set, nothing is read and the variable keeps its value;
  \<^item> at the end of the stream the fail bit is set and the variable keeps its value;
  \<^item> a numeral that fits is stored; for a \<open>bool\<close> only \<open>0\<close> and \<open>1\<close> fit, and any other
    numeral stores \<open>true\<close> and sets the fail bit; for a \<open>size_t\<close> a numeral of \<open>2 ^ 64\<close>
    or more stores the largest value and sets the fail bit;
  \<^item> text that is no numeral stores zero (\<open>false\<close>) and sets the fail bit.
  A stream is used with its exception mask empty, the default.\<close>

datatype token = Num nat | Junk

record istream =
  is_tokens :: "token list"
  is_fail :: bool

type_synonym ostream = "token list"

definition put_num :: "ostream \<Rightarrow> nat \<Rightarrow> ostream" where
  "put_num os n = os @ [Num n]"

definition get_bool :: "istream \<Rightarrow> bool option \<Rightarrow> istream \<times> bool option" where
  "get_bool s w =
     (if is_fail s then (s, w)
      else case is_tokens s of
             [] \<Rightarrow> (s\<lparr>is_fail := True\<rparr>, w)
           | Num n # ts \<Rightarrow>
               (if n = 0 then (s\<lparr>is_tokens := ts\<rparr>, Some False)
                else if n = 1 then (s\<lparr>is_tokens := ts\<rparr>, Some True)
                else (s\<lparr>is_tokens := ts, is_fail := True\<rparr>, Some True))
           | Junk # ts \<Rightarrow> (s\<lparr>is_fail := True\<rparr>, Some False))"

definition get_size_t :: "istream \<Rightarrow> size_t \<Rightarrow> istream \<times> size_t" where
  "get_size_t s v =
     (if is_fail s then (s, v)
      else case is_tokens s of
             [] \<Rightarrow> (s\<lparr>is_fail := True\<rparr>, v)
           | Num n # ts \<Rightarrow>
               (if n < 2 ^ 64 then (s\<lparr>is_tokens := ts\<rparr>, of_nat n)
                else (s\<lparr>is_tokens := ts, is_fail := True\<rparr>, - 1))
           | Junk # ts \<Rightarrow> (s\<lparr>is_fail := True\<rparr>, 0))"

text \<open>The token that \<open>os << (w ? 1 : 0)\<close> writes for a weight bit.\<close>

definition bit_token :: "bool \<Rightarrow> token" where
  "bit_token w = Num (if w then 1 else 0)"

text \<open>\<open>for (auto w : Wbin_) os << (w ? 1 : 0) << "\n";
  for (auto thr : Threshold_) os << thr << "\n";\<close>\<close>

definition save :: "binarynet_layer \<Rightarrow> ostream \<Rightarrow> ostream" where
  "save L os =
     fold (\<lambda>thr os. put_num os (unat thr)) (bn_Threshold L)
       (fold (\<lambda>w os. put_num os (if w then 1 else 0)) (bn_Wbin L) os)"

text \<open>\<open>bool w; for (size_t i = 0; i < in_size_ * out_size_; i++) { is >> w; Wbin_[i] = w; }\<close>
  The variable \<open>w\<close> starts uninitialised (\<open>None\<close>); assigning it to \<open>Wbin_[i]\<close> while it
  is still uninitialised is undefined behaviour.\<close>

definition load_weights ::
  "binarynet_layer \<Rightarrow> istream \<times> bool option \<times> bool list
     \<Rightarrow> error + istream \<times> bool option \<times> bool list" where
  "load_weights L =
     for_loop [0..<unat (bn_in_size L * bn_out_size L)] (\<lambda>i (s, w, wbin).
       (case get_bool s w of
          (s', None) \<Rightarrow> Inl Undefined
        | (s', Some b) \<Rightarrow> bind_res (vwrite wbin i b) (\<lambda>wbin'. Inr (s', Some b, wbin'))))"

text \<open>\<open>for (auto& thr : Threshold_) is >> thr;\<close>\<close>

fun load_thresholds :: "istream \<Rightarrow> size_t list \<Rightarrow> istream \<times> size_t list" where
  "load_thresholds s [] = (s, [])"
| "load_thresholds s (thr # thrs) =
     (case get_size_t s thr of (s', thr') \<Rightarrow>
        (case load_thresholds s' thrs of (s'', thrs') \<Rightarrow> (s'', thr' # thrs')))"

definition load :: "binarynet_layer \<Rightarrow> istream \<Rightarrow> error + binarynet_layer \<times> istream" where
  "load L s =
     bind_res (load_weights L (s, None, bn_Wbin L)) (\<lambda>(s', w, wbin).
       case load_thresholds s' (bn_Threshold L) of
         (s'', thrs) \<Rightarrow> Inr (L\<lparr>bn_Wbin := wbin, bn_Threshold := thrs\<rparr>, s''))"

section \<open>The binarized convolution layer (tiny-dnn)\<close>

text \<open>\<open>bnn_conv_layer\<close>: valid padding, stride 1, no bias. All geometry members are
  \<open>serial_size_t\<close>; \<open>W_\<close> and \<open>output_\<close> belong to the base class.\<close>

record bnn_conv_layer =
  conv_use_popcount :: bool
  conv_Wbin :: "bool list"
  conv_in_width :: serial_size_t
  conv_in_height :: serial_size_t
  conv_window_size :: serial_size_t
  conv_in_channels :: serial_size_t
  conv_out_channels :: serial_size_t
  conv_out_width :: serial_size_t
  conv_out_height :: serial_size_t
  conv_W :: vec_t
  conv_output :: "vec_t list"

subsection \<open>Binary weight file\<close>

text \<open>\<open>std::ifstream wf(fileName, binary)\<close>, then per weight
  \<open>unsigned long long e = 0; wf.read((char* )&e, sizeof(unsigned long long)); Wbin_[line] = e == 1;\<close>.
  A file is its bytes, or absent when it cannot be opened. \<open>read\<close> stores the bytes it
  gets at the start of \<open>e\<close>; when fewer than eight are left it stores those and sets the
  fail bit, after which nothing is read. The eight bytes of \<open>e\<close> are its value in
  little-endian order (x86-64, AArch64).\<close>

type_synonym byte = "8 word"

record ifstream =
  if_bytes :: "byte list"
  if_fail :: bool

definition read_bytes :: "ifstream \<Rightarrow> nat \<Rightarrow> ifstream \<times> byte list" where
  "read_bytes f n =
     (if if_fail f then (f, [])
      else if n \<le> length (if_bytes f) then (f\<lparr>if_bytes := drop n (if_bytes f)\<rparr>, take n (if_bytes f))
      else (f\<lparr>if_bytes := [], if_fail := True\<rparr>, if_bytes f))"

definition le_value :: "byte list \<Rightarrow> 64 word" where
  "le_value bs = foldr (\<lambda>b v. ucast b + 256 * v) bs 0"

definition read_ull :: "ifstream \<Rightarrow> ifstream \<times> 64 word" where
  "read_ull f =
     (case read_bytes f 8 of (f', got) \<Rightarrow>
        (f', le_value (got @ drop (length got) (replicate 8 0))))"

text \<open>The \<open>i\<close>-th eight-byte record of a file (shorter, or empty, where the file ends
  early), and the stream after \<open>i\<close> calls of \<open>read\<close> that started at the file's first
  byte.\<close>

definition chunk :: "byte list \<Rightarrow> nat \<Rightarrow> byte list" where
  "chunk bytes i = take 8 (drop (8 * i) bytes)"

definition file_after :: "byte list \<Rightarrow> nat \<Rightarrow> ifstream" where
  "file_after bytes i =
     (if 8 * i \<le> length bytes then \<lparr>if_bytes = drop (8 * i) bytes, if_fail = False\<rparr>
      else \<lparr>if_bytes = [], if_fail = True\<rparr>)"

definition loadFromBinaryFile :: "bnn_conv_layer \<Rightarrow> byte list option \<Rightarrow> error + bnn_conv_layer" where
  "loadFromBinaryFile L file =
     (case file of
        None \<Rightarrow> Inl (Thrown ''Could not open file'')
      | Some bytes \<Rightarrow>
          bind_res (for_loop [0..<length (conv_Wbin L)] (\<lambda>line (wf, wbin).
                      case read_ull wf of (wf', e) \<Rightarrow>
                        bind_res (vwrite wbin line (e = 1)) (\<lambda>wbin'. Inr (wf', wbin')))
                    (\<lparr>if_bytes = bytes, if_fail = False\<rparr>, conv_Wbin L))
            (\<lambda>(wf, wbin). Inr (L\<lparr>conv_Wbin := wbin\<rparr>)))"

subsection \<open>Construction and topology\<close>

text \<open>Modelled from the spec: the base-class constructor, as for the layers above, here
  called with the weight count \<open>out_channels * in_channels * window_size * window_size\<close>
  and the output size \<open>(in_width - window_size + 1) * (in_height - window_size + 1) *
  out_channels\<close>, both 32-bit products. The constructor's file name is empty (no file is
  read) or names the file whose opening gave \<open>file\<close>.\<close>

definition new_bnn_conv_layer ::
  "serial_size_t \<Rightarrow> serial_size_t \<Rightarrow> serial_size_t \<Rightarrow> serial_size_t \<Rightarrow> serial_size_t
     \<Rightarrow> bool \<Rightarrow> byte list option option \<Rightarrow> nat \<Rightarrow> error + bnn_conv_layer" where
  "new_bnn_conv_layer in_width in_height window_size in_channels out_channels
       use_popcount binaryParamFile workers =
     (let out_dim = (in_width - window_size + 1) * (in_height - window_size + 1) * out_channels;
          weight_dim = out_channels * in_channels * window_size * window_size;
          L = \<lparr> conv_use_popcount = use_popcount,
                conv_Wbin = replicate (unat weight_dim) False,
                conv_in_width = in_width, conv_in_height = in_height,
                conv_window_size = window_size,
                conv_in_channels = in_channels, conv_out_channels = out_channels,
                conv_out_width = in_width - window_size + 1,
                conv_out_height = in_height - window_size + 1,
                conv_W = replicate (unat weight_dim) 0,
                conv_output = replicate workers (replicate (unat out_dim) 0) \<rparr>
      in case binaryParamFile of None \<Rightarrow> Inr L | Some file \<Rightarrow> loadFromBinaryFile L file)"

definition conv_fan_in_size :: "bnn_conv_layer \<Rightarrow> size_t" where
  "conv_fan_in_size L =
     ucast (conv_in_channels L * conv_window_size L * conv_window_size L)"

definition conv_fan_out_size :: "bnn_conv_layer \<Rightarrow> size_t" where
  "conv_fan_out_size L =
     ucast (conv_out_channels L * conv_window_size L * conv_window_size L)"

definition conv_connection_size :: "bnn_conv_layer \<Rightarrow> size_t" where
  "conv_connection_size L =
     ucast (conv_out_height L * conv_out_width L) * conv_fan_in_size L"

definition conv_post_update :: "bnn_conv_layer \<Rightarrow> error + bnn_conv_layer" where
  "conv_post_update L =
     bind_res (float2bipolar (conv_W L) (conv_Wbin L)) (\<lambda>wb. Inr (L\<lparr>conv_Wbin := wb\<rparr>))"

definition conv_layer_type :: string where
  "conv_layer_type = ''bnn_conv_layer''"

definition conv_back_propagation ::
  "bnn_conv_layer \<Rightarrow> vec_t \<Rightarrow> nat \<Rightarrow> (error + vec_t) \<times> bnn_conv_layer" where
  "conv_back_propagation L curr_delta index = (Inl (Thrown ''Not implemented''), L)"

definition conv_back_propagation_2nd ::
  "bnn_conv_layer \<Rightarrow> vec_t \<Rightarrow> (error + vec_t) \<times> bnn_conv_layer" where
  "conv_back_propagation_2nd L current_delta2 = (Inl (Thrown ''Not implemented''), L)"

subsection \<open>Forward propagation\<close>

text \<open>The index computations of the loop nest. Products and sums of \<open>serial_size_t\<close>
  values are 32-bit; a sum with a \<open>size_t\<close> is 64-bit.\<close>

definition output_base :: "bnn_conv_layer \<Rightarrow> serial_size_t \<Rightarrow> size_t" where
  "output_base L oc = ucast (oc * conv_out_height L * conv_out_width L)"

definition weight_base :: "bnn_conv_layer \<Rightarrow> serial_size_t \<Rightarrow> serial_size_t \<Rightarrow> size_t" where
  "weight_base L oc ic =
     ucast (oc * (conv_window_size L * conv_window_size L * conv_in_channels L)
            + conv_window_size L * conv_window_size L * ic)"

definition input_base ::
  "bnn_conv_layer \<Rightarrow> serial_size_t \<Rightarrow> serial_size_t \<Rightarrow> serial_size_t \<Rightarrow> size_t" where
  "input_base L ic oy ox =
     ucast (ic * (conv_in_width L * conv_in_height L) + oy * conv_in_width L + ox)"

definition weight_ind ::
  "bnn_conv_layer \<Rightarrow> serial_size_t \<Rightarrow> serial_size_t \<Rightarrow> serial_size_t \<Rightarrow> serial_size_t \<Rightarrow> size_t" where
  "weight_ind L oc ic ky kx = weight_base L oc ic + ucast (ky * conv_window_size L) + ucast kx"

definition input_ind ::
  "bnn_conv_layer \<Rightarrow> serial_size_t \<Rightarrow> serial_size_t \<Rightarrow> serial_size_t \<Rightarrow> serial_size_t
     \<Rightarrow> serial_size_t \<Rightarrow> size_t" where
  "input_ind L ic oy ox ky kx = input_base L ic oy ox + ucast (ky * conv_in_width L) + ucast kx"

definition output_ind ::
  "bnn_conv_layer \<Rightarrow> serial_size_t \<Rightarrow> serial_size_t \<Rightarrow> serial_size_t \<Rightarrow> size_t" where
  "output_ind L oc oy ox = output_base L oc + ucast (oy * conv_out_width L) + ucast ox"

text \<open>\<open>acc += Wbin_[weight_ind] == in_bin[input_ind] ? +1 : 0\<close> (popcount) or
  \<open>? +1 : -1\<close> (signed) on an \<open>int\<close>.\<close>

definition int_add :: "int \<Rightarrow> int \<Rightarrow> error + int" where
  "int_add acc d = (if in_int_range (acc + d) then Inr (acc + d) else Inl Undefined)"

definition match_rule :: "bnn_conv_layer \<Rightarrow> bool \<Rightarrow> bool \<Rightarrow> int" where
  "match_rule L w x = (if conv_use_popcount L then popcount_step w x else signed_step w x)"

definition conv_acc :: "bnn_conv_layer \<Rightarrow> bool list \<Rightarrow> nat \<Rightarrow> nat \<Rightarrow> nat \<Rightarrow> error + int" where
  "conv_acc L in_bin oc oy ox =
     for_loop [0..<unat (conv_in_channels L)] (\<lambda>ic.
       for_loop [0..<unat (conv_window_size L)] (\<lambda>ky.
         for_loop [0..<unat (conv_window_size L)] (\<lambda>kx acc.
           bind_res (vread (conv_Wbin L)
                       (unat (weight_ind L (of_nat oc) (of_nat ic) (of_nat ky) (of_nat kx)))) (\<lambda>w.
           bind_res (vread in_bin
                       (unat (input_ind L (of_nat ic) (of_nat oy) (of_nat ox) (of_nat ky) (of_nat kx)))) (\<lambda>x.
             int_add acc (match_rule L w x)))))) 0"

definition conv_kernel :: "bnn_conv_layer \<Rightarrow> bool list \<Rightarrow> vec_t \<Rightarrow> error + vec_t" where
  "conv_kernel L in_bin =
     for_loop [0..<unat (conv_out_channels L)] (\<lambda>oc.
       for_loop [0..<unat (conv_out_height L)] (\<lambda>oy.
         for_loop [0..<unat (conv_out_width L)] (\<lambda>ox out.
           bind_res (conv_acc L in_bin oc oy ox) (\<lambda>acc.
             vwrite out (unat (output_ind L (of_nat oc) (of_nat oy) (of_nat ox))) (real_of_int acc)))))"

definition conv_forward_propagation ::
  "next_layer \<Rightarrow> bnn_conv_layer \<Rightarrow> vec_t \<Rightarrow> nat \<Rightarrow> error + (vec_t \<times> bnn_conv_layer)" where
  "conv_forward_propagation nxt L in_raw worker_index =
     bind_res (float2bipolar in_raw (replicate (length in_raw) False)) (\<lambda>in_bin.
     bind_res (vread (conv_output L) worker_index) (\<lambda>out.
     bind_res (conv_kernel L in_bin out) (\<lambda>out'.
       let L' = L\<lparr>conv_output := (conv_output L)[worker_index := out']\<rparr>
       in (case nxt of None \<Rightarrow> Inr (out', L')
           | Some f \<Rightarrow> bind_res (f out' worker_index) (\<lambda>r. Inr (r, L'))))))"

section \<open>Class invariants\<close>

text \<open>What the constructors establish and the functions that write the stores keep: the
  sizes of the vectors. The fully-connected layer's constructor only returns when its
  \<open>unsigned int\<close> counter can reach \<open>connection_size()\<close>.\<close>

definition fc_wf :: "binarized_fc_layer \<Rightarrow> bool" where
  "fc_wf L \<longleftrightarrow>
     length (fc_Wbin L) = unat (fc_connection_size L)
     \<and> length (fc_W L) = unat (fc_connection_size L)
     \<and> unat (fc_connection_size L) < 2 ^ 32
     \<and> list_all (\<lambda>v. length v = unat (fc_out_size L)) (fc_a L)
     \<and> list_all (\<lambda>v. length v = unat (fc_out_size L)) (fc_output L)"

definition bn_wf :: "binarynet_layer \<Rightarrow> bool" where
  "bn_wf L \<longleftrightarrow>
     length (bn_Wbin L) = unat (bn_in_size L * bn_out_size L)
     \<and> length (bn_Threshold L) = unat (bn_out_size L)
     \<and> list_all (\<lambda>v. length v = unat (bn_out_size L)) (bn_a L)
     \<and> list_all (\<lambda>v. length v = unat (bn_out_size L)) (bn_output L)"

definition conv_wf :: "bnn_conv_layer \<Rightarrow> bool" where
  "conv_wf L \<longleftrightarrow>
     length (conv_Wbin L)
       = unat (conv_out_channels L * conv_in_channels L * conv_window_size L * conv_window_size L)
     \<and> conv_out_width L = conv_in_width L - conv_window_size L + 1
     \<and> conv_out_height L = conv_in_height L - conv_window_size L + 1
     \<and> list_all (\<lambda>v. length v
           = unat (conv_out_width L * conv_out_height L * conv_out_channels L)) (conv_output L)"

section \<open>Values the forward pass computes\<close>

text \<open>Names for the values the theorems speak about: the bit vector \<open>in_bin\<close> that
  \<open>forward_propagation\<close> has after \<open>float2bipolar(in, in_bin)\<close> on an input of at most
  \<open>n = in_size_\<close> elements (the bits beyond the input keep their initial \<open>false\<close>), and
  the accumulator of output unit \<open>i\<close> as a sum over the fan-in: signed mode in the
  fully-connected layer, popcount mode in the binarynet layer.\<close>

definition encode_input :: "nat \<Rightarrow> vec_t \<Rightarrow> bool list" where
  "encode_input n inp = map (\<lambda>x. x \<ge> 0) inp @ replicate (n - length inp) False"

definition fc_acc :: "binarized_fc_layer \<Rightarrow> bool list \<Rightarrow> nat \<Rightarrow> real" where
  "fc_acc L in_bin i =
     (\<Sum>c<unat (fc_in_size L). signed_step (fc_Wbin L ! (c * unat (fc_out_size L) + i)) (in_bin ! c))"

definition bn_acc :: "binarynet_layer \<Rightarrow> bool list \<Rightarrow> nat \<Rightarrow> real" where
  "bn_acc L in_bin i =
     (\<Sum>c<unat (bn_in_size L). popcount_step (bn_Wbin L ! (c * unat (bn_out_size L) + i)) (in_bin ! c))"

text \<open>The convolution's accumulator for output position \<open>(oc, oy, ox)\<close> written as the
  sum over input channel and kernel offsets of the layer's match rule, with the weight
  and input positions as linear indices over natural numbers.\<close>

definition conv_sum :: "bnn_conv_layer \<Rightarrow> bool list \<Rightarrow> nat \<Rightarrow> nat \<Rightarrow> nat \<Rightarrow> int" where
  "conv_sum L in_bin oc oy ox =
     (let k = unat (conv_window_size L); in_channels = unat (conv_in_channels L);
          in_width = unat (conv_in_width L); in_height = unat (conv_in_height L)
      in \<Sum>ic<in_channels. \<Sum>ky<k. \<Sum>kx<k.
           match_rule L
             (conv_Wbin L ! (oc * (k * k * in_channels) + ic * (k * k) + ky * k + kx))
             (in_bin ! (ic * (in_width * in_height) + oy * in_width + ox + ky * in_width + kx)))"

section \<open>Small instances\<close>

text \<open>Three concrete layers, one per class, on which the theorems below are
  instantiated: a 2-to-1 fully-connected layer, a 4-to-1 binarynet layer and a
  convolution of a 3 by 3 single-channel input with one 2 by 2 kernel.\<close>

definition fc_example :: binarized_fc_layer where
  "fc_example = \<lparr> fc_in_size = 2, fc_out_size = 1, fc_W = [1 / 2, - 3],
     fc_Wbin = [False, False], fc_a = [[0]], fc_output = [[0]] \<rparr>"

definition bn_example :: binarynet_layer where
  "bn_example = \<lparr> bn_in_size = 4, bn_out_size = 1, bn_W = [1, - 1, 0, - 2],
     bn_Wbin = [True, False, True, True], bn_Threshold = [3], bn_Offload = None,
     bn_a = [[0]], bn_output = [[0]] \<rparr>"

definition conv_example :: bnn_conv_layer where
  "conv_example = \<lparr> conv_use_popcount = False, conv_Wbin = [True, False, False, True],
     conv_in_width = 3, conv_in_height = 3, conv_window_size = 2,
     conv_in_channels = 1, conv_out_channels = 1, conv_out_width = 2, conv_out_height = 2,
     conv_W = [1, - 1, - 1, 1], conv_output = [[0, 0, 0, 0]] \<rparr>"

section \<open>Properties\<close>

subsection \<open>The failure monad and loops\<close>

lemma bind_res_Inr [simp]: "bind_res (Inr x) f = f x"
  by (simp add: bind_res_def)

lemma bind_res_Inl [simp]: "bind_res (Inl e) f = Inl e"
  by (simp add: bind_res_def)

lemma bind_res_eq_Inr:
  "bind_res m f = Inr y \<longleftrightarrow> (\<exists>x. m = Inr x \<and> f x = Inr y)"
  by (cases m) simp_all

lemma for_loop_append:
  "for_loop (xs @ ys) body s = bind_res (for_loop xs body s) (for_loop ys body)"
proof (induction xs arbitrary: s)
  case Nil
  show ?case by simp
next
  case (Cons x xs)
  show ?case
  proof (cases "body x s")
    case (Inl e)
    then show ?thesis by simp
  next
    case (Inr s')
    then show ?thesis by (simp add: Cons.IH)
  qed
qed

lemma for_loop_Suc:
  "for_loop [0..<Suc n] body s = bind_res (for_loop [0..<n] body s) (body n)"
proof -
  have "for_loop [n] body = body n"
  proof
    fix t show "for_loop [n] body t = body n t"
      by (cases "body n t") simp_all
  qed
  then show ?thesis by (simp add: for_loop_append)
qed

lemma for_loop_cong:
  assumes "\<And>i s. i \<in> set xs \<Longrightarrow> f i s = g i s"
  shows "for_loop xs f s = for_loop xs g s"
  using assms
proof (induction xs arbitrary: s)
  case Nil
  show ?case by simp
next
  case (Cons x xs)
  have "f x s = g x s" using Cons.prems by simp
  moreover have "for_loop xs f = for_loop xs g"
    using Cons.IH Cons.prems by (intro ext) simp
  ultimately show ?case by simp
qed

subsection \<open>Accumulation modes\<close>

lemma signed_step_eq: "w = x \<Longrightarrow> signed_step w x = 1"
  and signed_step_neq: "w \<noteq> x \<Longrightarrow> signed_step w x = - 1"
  and popcount_step_eq: "w = x \<Longrightarrow> popcount_step w x = 1"
  and popcount_step_neq: "w \<noteq> x \<Longrightarrow> popcount_step w x = 0"
  by (simp_all add: signed_step_def popcount_step_def)

lemma fold_signed_step:
  "fold (\<lambda>(w, x) acc. acc + signed_step w x) ps (a :: 'a::ring_1)
     = a + 2 * of_nat (matches ps) - of_nat (length ps)"
proof (induction ps arbitrary: a)
  case Nil
  show ?case by (simp add: matches_def)
next
  case (Cons p ps)
  obtain w x where p: "p = (w, x)" by (cases p)
  have m: "matches (p # ps) = (if w = x then Suc (matches ps) else matches ps)"
    by (simp add: matches_def p)
  show ?case
  proof (cases "w = x")
    case True
    then show ?thesis
      unfolding m by (simp add: p Cons.IH signed_step_eq algebra_simps)
  next
    case False
    then show ?thesis
      unfolding m by (simp add: p Cons.IH signed_step_neq algebra_simps)
  qed
qed

lemma fold_popcount_step:
  "fold (\<lambda>(w, x) acc. acc + popcount_step w x) ps (a :: 'a::ring_1)
     = a + of_nat (matches ps)"
proof (induction ps arbitrary: a)
  case Nil
  show ?case by (simp add: matches_def)
next
  case (Cons p ps)
  obtain w x where p: "p = (w, x)" by (cases p)
  have m: "matches (p # ps) = (if w = x then Suc (matches ps) else matches ps)"
    by (simp add: matches_def p)
  show ?case
  proof (cases "w = x")
    case True
    then show ?thesis
      unfolding m by (simp add: p Cons.IH popcount_step_eq algebra_simps)
  next
    case False
    then show ?thesis
      unfolding m by (simp add: p Cons.IH popcount_step_neq algebra_simps)
  qed
qed

text \<open>Claim C3: over any sequence of weight-bit/input-bit pairs, of which
  \<open>matches ps\<close> are equal, the signed accumulator is twice the number of matches minus
  the number of pairs, the popcount accumulator is the number of matches, and so the
  signed accumulator is twice the popcount accumulator minus the number of pairs.\<close>

theorem mode_equivalence:
  "(acc_signed ps :: 'a::ring_1) = 2 * of_nat (matches ps) - of_nat (length ps)
   \<and> (acc_popcount ps :: 'a) = of_nat (matches ps)
   \<and> (acc_signed ps :: 'a) = 2 * acc_popcount ps - of_nat (length ps)"
  by (simp add: acc_signed_def acc_popcount_def fold_signed_step fold_popcount_step)

subsection \<open>The encoder\<close>

lemma float2bipolar_loop:
  "n \<le> length inp \<Longrightarrow> n \<le> length out \<Longrightarrow>
   for_loop [0..<n] (\<lambda>i out. vwrite out i (inp ! i \<ge> 0)) out
     = Inr (map (\<lambda>x. x \<ge> 0) (take n inp) @ drop n out)"
proof (induction n)
  case 0
  show ?case by simp
next
  case (Suc n)
  have 1: "take (Suc n) inp = take n inp @ [inp ! n]"
    using Suc.prems by (simp add: take_Suc_conv_app_nth)
  have 2: "(map (\<lambda>x. 0 \<le> x) (take n inp) @ drop n out)[n := 0 \<le> inp ! n]
           = map (\<lambda>x. 0 \<le> x) (take n inp) @ [0 \<le> inp ! n] @ drop (Suc n) out"
    using Suc.prems by (simp add: list_update_append upd_conv_take_nth_drop)
  let ?body = "\<lambda>i out. vwrite out i (inp ! i \<ge> 0)"
  let ?mid = "map (\<lambda>x. 0 \<le> x) (take n inp) @ drop n out"
  have "for_loop [0..<Suc n] ?body out = bind_res (for_loop [0..<n] ?body out) (?body n)"
    by (rule for_loop_Suc)
  also have "\<dots> = vwrite ?mid n (inp ! n \<ge> 0)"
    using Suc.prems by (simp add: Suc.IH)
  also have "\<dots> = Inr (map (\<lambda>x. x \<ge> 0) (take (Suc n) inp) @ drop (Suc n) out)"
    using Suc.prems by (simp add: vwrite_def 1 2)
  finally show ?case .
qed

lemma float2bipolar_ok:
  "length inp \<le> length out \<Longrightarrow>
   float2bipolar inp out = Inr (map (\<lambda>x. x \<ge> 0) inp @ drop (length inp) out)"
  using float2bipolar_loop [of "length inp" inp out] by (simp add: float2bipolar_def)

lemma float2bipolar_overrun:
  "length out < length inp \<Longrightarrow> float2bipolar inp out = Inl Undefined"
proof -
  assume a: "length out < length inp"
  have "[0..<length inp] = [0..<length out] @ length out # [Suc (length out)..<length inp]"
    using a by (metis upt_add_eq_append upt_conv_Cons le_add_diff_inverse less_imp_le_nat zero_le)
  moreover have "for_loop [0..<length out] (\<lambda>i out. vwrite out i (inp ! i \<ge> 0)) out
      = Inr (map (\<lambda>x. x \<ge> 0) (take (length out) inp))"
    using float2bipolar_loop [of "length out" inp out] a by simp
  ultimately show ?thesis
    by (simp add: float2bipolar_def for_loop_append vwrite_def)
qed

subsection \<open>Synchronisation\<close>

text \<open>Claim C8 as stated fails: \<open>float2bipolar\<close> is bounded by the size of the float
  tensor, so a tensor with more elements than the store is written past the store's end.
  Here the tensor has two elements and the store one.\<close>

theorem post_update_overrun_counterexample:
  "length (bn_Wbin (bn_example\<lparr>bn_W := [1, - 1], bn_Wbin := [False]\<rparr>))
     \<le> length (bn_W (bn_example\<lparr>bn_W := [1, - 1], bn_Wbin := [False]\<rparr>))
   \<and> bn_post_update (bn_example\<lparr>bn_W := [1, - 1], bn_Wbin := [False]\<rparr>) = Inl Undefined"
  by (simp add: bn_post_update_def float2bipolar_overrun)

text \<open>Claim C8, amended: when the float tensor has exactly as many elements as the
  store (and, for tiny-cnn's layer with its \<open>unsigned int\<close> counter, fewer than
  \<open>2 ^ 32\<close>), \<open>post_update\<close> of each of the three layers returns, keeps the store's
  length, and leaves bit \<open>j\<close> true exactly when float weight \<open>j\<close> is at least \<open>0\<close>.\<close>

theorem post_update_encodes:
  "(length (fc_W L1) = length (fc_Wbin L1) \<and> length (fc_W L1) < 2 ^ 32 \<longrightarrow>
      (\<exists>L'. fc_post_update L1 = Inr L' \<and> length (fc_Wbin L') = length (fc_Wbin L1)
            \<and> (\<forall>j < length (fc_Wbin L1). fc_Wbin L' ! j = (fc_W L1 ! j \<ge> 0))))
   \<and> (length (bn_W L2) = length (bn_Wbin L2) \<longrightarrow>
      (\<exists>L'. bn_post_update L2 = Inr L' \<and> length (bn_Wbin L') = length (bn_Wbin L2)
            \<and> (\<forall>j < length (bn_Wbin L2). bn_Wbin L' ! j = (bn_W L2 ! j \<ge> 0))))
   \<and> (length (conv_W L3) = length (conv_Wbin L3) \<longrightarrow>
      (\<exists>L'. conv_post_update L3 = Inr L' \<and> length (conv_Wbin L') = length (conv_Wbin L3)
            \<and> (\<forall>j < length (conv_Wbin L3). conv_Wbin L' ! j = (conv_W L3 ! j \<ge> 0))))"
  by (simp add: fc_post_update_def bn_post_update_def conv_post_update_def
      float2bipolar_uint_def float2bipolar_ok)

theorem post_update_encodes_witness:
  "length (fc_W fc_example) = length (fc_Wbin fc_example) \<and> length (fc_W fc_example) < 2 ^ 32
   \<and> fc_post_update fc_example = Inr (fc_example\<lparr>fc_Wbin := [True, False]\<rparr>)
   \<and> length (bn_W bn_example) = length (bn_Wbin bn_example)
   \<and> bn_post_update bn_example = Inr (bn_example\<lparr>bn_Wbin := [True, False, True, False]\<rparr>)
   \<and> length (conv_W conv_example) = length (conv_Wbin conv_example)
   \<and> conv_post_update conv_example = Inr (conv_example\<lparr>conv_Wbin := [True, False, False, True]\<rparr>)"
  using post_update_encodes [of fc_example bn_example conv_example]
  by (simp add: fc_post_update_def bn_post_update_def conv_post_update_def
      float2bipolar_uint_def float2bipolar_ok fc_example_def bn_example_def conv_example_def)

subsection \<open>Training\<close>

text \<open>Claim C9: in each of the three layers, \<open>back_propagation\<close> and
  \<open>back_propagation_2nd\<close> fail at once, whatever the layer and the arguments, by throwing
  the string "Not yet implemented" (fully-connected and binarynet layers) or
  "Not implemented" (convolution), and the layer after the call, with its weights,
  thresholds and scratch vectors, is the layer before it.\<close>

theorem back_propagation_unsupported:
  "fc_back_propagation L1 d i = (Inl (Thrown ''Not yet implemented''), L1)
   \<and> fc_back_propagation_2nd L1 d = (Inl (Thrown ''Not yet implemented''), L1)
   \<and> bn_back_propagation L2 d i = (Inl (Thrown ''Not yet implemented''), L2)
   \<and> bn_back_propagation_2nd L2 d = (Inl (Thrown ''Not yet implemented''), L2)
   \<and> conv_back_propagation L3 d i = (Inl (Thrown ''Not implemented''), L3)
   \<and> conv_back_propagation_2nd L3 d = (Inl (Thrown ''Not implemented''), L3)"
  by (simp add: fc_back_propagation_def fc_back_propagation_2nd_def bn_back_propagation_def
      bn_back_propagation_2nd_def conv_back_propagation_def conv_back_propagation_2nd_def)

subsection \<open>Word arithmetic without wrap-around\<close>

lemma unat_ucast_32_64: "unat (ucast (w :: 32 word) :: 64 word) = unat w"
  by (simp add: unsigned_ucast_eq take_bit_nat_eq_self unsigned_less [THEN less_trans])

lemma unat_of_nat_32: "n < 2 ^ 32 \<Longrightarrow> unat (of_nat n :: 32 word) = n"
  by (simp add: unat_of_nat)

lemma ucast_of_nat_32_64: "n < 2 ^ 32 \<Longrightarrow> (ucast (of_nat n :: 32 word) :: 64 word) = of_nat n"
  by (simp add: unsigned_of_nat take_bit_nat_eq_self)

lemma unat_lt_32: "unat (w :: 32 word) < 2 ^ 32"
  using unsigned_less [of w] by simp

lemma unat_mult_32_64:
  "unat (ucast (a :: 32 word) * ucast (b :: 32 word) :: 64 word) = unat a * unat b"
proof -
  have "unat a * unat b < 2 ^ 32 * 2 ^ 32"
    using unat_lt_32 [of a] unat_lt_32 [of b] by (intro mult_strict_mono) simp_all
  then have "unat (ucast a :: 64 word) * unat (ucast b :: 64 word) < 2 ^ LENGTH(64)"
    by (simp add: unat_ucast_32_64)
  then show ?thesis
    by (simp add: unat_mult_lem [THEN iffD1] unat_ucast_32_64)
qed

subsection \<open>The binary weight file\<close>

lemma le_value_Cons: "le_value (b # bs) = ucast b + 256 * le_value bs"
  by (simp add: le_value_def)

lemma le_value_zeros: "le_value (bs @ replicate n 0) = le_value bs"
proof (induction bs)
  case Nil
  show ?case by (induction n) (simp_all add: le_value_def)
next
  case (Cons b bs)
  then show ?case by (simp add: le_value_Cons)
qed

lemma read_ull_file_after:
  "read_ull (file_after bytes i) = (file_after bytes (Suc i), le_value (chunk bytes i))"
proof -
  consider (full) "8 * Suc i \<le> length bytes"
    | (part) "8 * i \<le> length bytes" "\<not> 8 * Suc i \<le> length bytes"
    | (failed) "\<not> 8 * i \<le> length bytes"
    by blast
  then show ?thesis
  proof cases
    case full
    then show ?thesis
      by (simp add: read_ull_def read_bytes_def file_after_def chunk_def add.commute)
  next
    case part
    then have short: "length (drop (8 * i) bytes) < 8" by simp
    have pad: "drop (length bytes - 8 * i) (replicate 8 (0::byte))
        = replicate (8 - (length bytes - 8 * i)) 0"
      by simp
    show ?thesis
      using part short
      by (simp add: read_ull_def read_bytes_def file_after_def chunk_def pad le_value_zeros
          del: drop_replicate)
  next
    case failed
    then show ?thesis
      using le_value_zeros [of "[]" 8]
      by (simp add: read_ull_def read_bytes_def file_after_def chunk_def le_value_def)
  qed
qed

lemma load_loop:
  "n \<le> length wbin \<Longrightarrow>
   for_loop [0..<n] (\<lambda>line (wf, wbin).
       case read_ull wf of (wf', e) \<Rightarrow>
         bind_res (vwrite wbin line (e = 1)) (\<lambda>wbin'. Inr (wf', wbin')))
     (file_after bytes 0, wbin)
   = Inr (file_after bytes n, map (\<lambda>i. le_value (chunk bytes i) = 1) [0..<n] @ drop n wbin)"
proof (induction n)
  case 0
  show ?case by simp
next
  case (Suc n)
  let ?f = "\<lambda>i. le_value (chunk bytes i) = 1"
  let ?body = "\<lambda>line (wf, wbin).
       case read_ull wf of (wf', e) \<Rightarrow>
         bind_res (vwrite wbin line (e = 1)) (\<lambda>wbin'. Inr (wf', wbin'))"
  have upd: "(map ?f [0..<n] @ drop n wbin)[n := ?f n] = map ?f [0..<Suc n] @ drop (Suc n) wbin"
    using Suc.prems by (simp add: list_update_append upd_conv_take_nth_drop)
  have "for_loop [0..<Suc n] ?body (file_after bytes 0, wbin)
      = bind_res (for_loop [0..<n] ?body (file_after bytes 0, wbin)) (?body n)"
    by (rule for_loop_Suc)
  also have "\<dots> = ?body n (file_after bytes n, map ?f [0..<n] @ drop n wbin)"
    using Suc.prems by (simp add: Suc.IH)
  also have "\<dots> = Inr (file_after bytes (Suc n), map ?f [0..<Suc n] @ drop (Suc n) wbin)"
    using Suc.prems by (simp add: read_ull_file_after vwrite_def upd del: upt_Suc)
  finally show ?case .
qed

text \<open>Claim C7: \<open>loadFromBinaryFile\<close> sets weight bit \<open>i\<close>, in the store's linear
  order, to true exactly when the \<open>i\<close>-th eight-byte record of the file, read as an
  unsigned 64-bit integer, equals \<open>1\<close>; any other value gives false, and so does a
  record the file is too short to hold (its missing bytes stay \<open>0\<close>). Nothing else
  of the layer changes. A file that cannot be opened throws "Could not open file".\<close>

theorem loadFromBinaryFile_decodes:
  "loadFromBinaryFile L None = Inl (Thrown ''Could not open file'')
   \<and> loadFromBinaryFile L (Some bytes)
       = Inr (L\<lparr>conv_Wbin := map (\<lambda>i. le_value (chunk bytes i) = 1) [0..<length (conv_Wbin L)]\<rparr>)"
  using load_loop [of "length (conv_Wbin L)" "conv_Wbin L" bytes]
  by (simp add: loadFromBinaryFile_def file_after_def)

subsection \<open>Topology queries\<close>

lemma fc_connection_size_unat:
  "unat (fc_connection_size L) = unat (fc_in_size L) * unat (fc_out_size L)"
  by (simp add: fc_connection_size_def unat_mult_32_64)

lemma bn_connection_size_unat:
  "unat (bn_connection_size L)
     = unat (bn_in_size L) * unat (bn_out_size L) + unat (2 * bn_out_size L)"
proof -
  let ?p = "ucast (bn_in_size L) * ucast (bn_out_size L) :: 64 word"
  let ?q = "ucast (2 * bn_out_size L) :: 64 word"
  have p: "unat ?p = unat (bn_in_size L) * unat (bn_out_size L)" by (rule unat_mult_32_64)
  have "unat (bn_in_size L) * unat (bn_out_size L) \<le> (2 ^ 32 - 1) * (2 ^ 32 - 1)"
    using unat_lt_32 [of "bn_in_size L"] unat_lt_32 [of "bn_out_size L"]
    by (intro mult_mono) simp_all
  moreover have "unat ?q < 2 ^ 32"
    using unat_lt_32 [of "2 * bn_out_size L"] by (simp add: unat_ucast_32_64)
  ultimately have "unat ?p + unat ?q < 2 ^ LENGTH(64)"
    by (simp add: p)
  then have "unat (?p + ?q) = unat ?p + unat ?q"
    by (simp add: unat_add_lem [THEN iffD1])
  then show ?thesis
    by (simp add: bn_connection_size_def p unat_ucast_32_64)
qed

lemma unat_double_32: "unat (w :: 32 word) < 2 ^ 31 \<Longrightarrow> unat (2 * w) = 2 * unat w"
  by (simp add: unat_word_ariths)

lemma unat_mult_32: "unat a * unat b < 2 ^ 32 \<Longrightarrow> unat (a * b :: 32 word) = unat a * unat b"
  by (simp add: unat_mult_lem [THEN iffD1])

lemma nat_mult_less_drop: "(a::nat) * k < n \<Longrightarrow> 0 < k \<Longrightarrow> a < n"
proof -
  assume a: "a * k < n" and k: "0 < k"
  from k have "a \<le> a * k" by (cases k) simp_all
  with a show "a < n" by (rule le_less_trans [rotated])
qed

lemma conv_connection_size_unat:
  "unat (conv_connection_size L)
     = unat (conv_out_height L * conv_out_width L) * unat (conv_fan_in_size L)"
  by (simp add: conv_connection_size_def conv_fan_in_size_def unat_mult_32_64 unat_ucast_32_64)

lemma conv_fan_in_size_unat:
  assumes "unat (conv_in_channels L) * unat (conv_window_size L) * unat (conv_window_size L) < 2 ^ 32"
  shows "unat (conv_fan_in_size L)
     = unat (conv_in_channels L) * unat (conv_window_size L) * unat (conv_window_size L)"
proof (cases "unat (conv_window_size L) = 0")
  case True
  then have "conv_window_size L = 0" by (simp add: unat_eq_0)
  then show ?thesis by (simp add: conv_fan_in_size_def)
next
  case False
  then have "unat (conv_in_channels L) * unat (conv_window_size L) < 2 ^ 32"
    using assms nat_mult_less_drop by blast
  then have 1: "unat (conv_in_channels L * conv_window_size L)
      = unat (conv_in_channels L) * unat (conv_window_size L)"
    by (rule unat_mult_32)
  show ?thesis
    using assms by (simp add: conv_fan_in_size_def unat_ucast_32_64 unat_mult_32 1)
qed

text \<open>Claim C10: \<open>connection_size()\<close> is the length of the binarized weight store
  for the plain fully-connected layer, \<open>in_size * out_size\<close>. For a binarynet layer it is
  \<open>in_size * out_size + 2 * out_size\<close>, that is the store's length plus two per output
  unit, while the layer stores one threshold per output unit and no flip indicator. For
  a convolution it is \<open>out_height * out_width * fan_in_size()\<close> with
  \<open>fan_in_size() = in_channels * k * k\<close>, while the store holds
  \<open>out_channels * in_channels * k * k\<close> bits. The products are those of the machine
  types, so each equation is stated where its product does not wrap around.\<close>

theorem connection_size_and_store:
  "(fc_wf L1 \<longrightarrow>
      unat (fc_connection_size L1) = unat (fc_in_size L1) * unat (fc_out_size L1)
      \<and> unat (fc_connection_size L1) = length (fc_Wbin L1))
   \<and> (unat (bn_out_size L2) < 2 ^ 31 \<longrightarrow>
      unat (bn_connection_size L2)
        = unat (bn_in_size L2) * unat (bn_out_size L2) + 2 * unat (bn_out_size L2))
   \<and> (bn_wf L2 \<and> unat (bn_in_size L2) * unat (bn_out_size L2) < 2 ^ 32
        \<and> unat (bn_out_size L2) < 2 ^ 31 \<longrightarrow>
      length (bn_Wbin L2) = unat (bn_in_size L2) * unat (bn_out_size L2)
      \<and> length (bn_Threshold L2) = unat (bn_out_size L2)
      \<and> unat (bn_connection_size L2) = length (bn_Wbin L2) + 2 * unat (bn_out_size L2))
   \<and> (unat (conv_out_height L3) * unat (conv_out_width L3) < 2 ^ 32
        \<and> unat (conv_in_channels L3) * unat (conv_window_size L3) * unat (conv_window_size L3) < 2 ^ 32 \<longrightarrow>
      unat (conv_fan_in_size L3)
        = unat (conv_in_channels L3) * unat (conv_window_size L3) * unat (conv_window_size L3)
      \<and> unat (conv_connection_size L3)
        = unat (conv_out_height L3) * unat (conv_out_width L3) * unat (conv_fan_in_size L3))
   \<and> (conv_wf L3
        \<and> unat (conv_out_channels L3) * unat (conv_in_channels L3) * unat (conv_window_size L3)
            * unat (conv_window_size L3) < 2 ^ 32 \<longrightarrow>
      length (conv_Wbin L3)
        = unat (conv_out_channels L3) * unat (conv_in_channels L3) * unat (conv_window_size L3)
            * unat (conv_window_size L3))"
proof (intro conjI impI)
  assume "fc_wf L1"
  then show "unat (fc_connection_size L1) = length (fc_Wbin L1)"
    by (simp add: fc_wf_def)
next
  show "unat (fc_connection_size L1) = unat (fc_in_size L1) * unat (fc_out_size L1)"
    by (rule fc_connection_size_unat)
next
  assume "unat (bn_out_size L2) < 2 ^ 31"
  then show "unat (bn_connection_size L2)
        = unat (bn_in_size L2) * unat (bn_out_size L2) + 2 * unat (bn_out_size L2)"
    by (simp add: bn_connection_size_unat unat_double_32)
next
  assume a: "bn_wf L2 \<and> unat (bn_in_size L2) * unat (bn_out_size L2) < 2 ^ 32
        \<and> unat (bn_out_size L2) < 2 ^ 31"
  then show len: "length (bn_Wbin L2) = unat (bn_in_size L2) * unat (bn_out_size L2)"
    by (simp add: bn_wf_def unat_mult_32)
  from a show "length (bn_Threshold L2) = unat (bn_out_size L2)"
    by (simp add: bn_wf_def)
  from a show "unat (bn_connection_size L2) = length (bn_Wbin L2) + 2 * unat (bn_out_size L2)"
    by (simp add: len bn_connection_size_unat unat_double_32)
next
  assume a: "unat (conv_out_height L3) * unat (conv_out_width L3) < 2 ^ 32
        \<and> unat (conv_in_channels L3) * unat (conv_window_size L3) * unat (conv_window_size L3) < 2 ^ 32"
  then show "unat (conv_fan_in_size L3)
        = unat (conv_in_channels L3) * unat (conv_window_size L3) * unat (conv_window_size L3)"
    by (simp add: conv_fan_in_size_unat)
  from a show "unat (conv_connection_size L3)
        = unat (conv_out_height L3) * unat (conv_out_width L3) * unat (conv_fan_in_size L3)"
    by (simp add: conv_connection_size_unat unat_mult_32)
next
  let ?oc = "unat (conv_out_channels L3)" and ?ic = "unat (conv_in_channels L3)"
  let ?k = "unat (conv_window_size L3)"
  assume a: "conv_wf L3 \<and> ?oc * ?ic * ?k * ?k < 2 ^ 32"
  show "length (conv_Wbin L3) = ?oc * ?ic * ?k * ?k"
  proof (cases "?k = 0")
    case True
    then have "conv_window_size L3 = 0" by (simp add: unat_eq_0)
    with a True show ?thesis by (simp add: conv_wf_def)
  next
    case False
    then have 1: "?oc * ?ic * ?k < 2 ^ 32"
      using a nat_mult_less_drop by blast
    then have 2: "?oc * ?ic < 2 ^ 32"
      using False nat_mult_less_drop by blast
    from a 1 2 show ?thesis by (simp add: conv_wf_def unat_mult_32)
  qed
qed

theorem connection_size_and_store_witness:
  "fc_wf fc_example
   \<and> unat (fc_connection_size fc_example) = 2 \<and> length (fc_Wbin fc_example) = 2
   \<and> bn_wf bn_example \<and> unat (bn_out_size bn_example) < 2 ^ 31
   \<and> unat (bn_in_size bn_example) * unat (bn_out_size bn_example) < 2 ^ 32
   \<and> unat (bn_connection_size bn_example) = 6 \<and> length (bn_Wbin bn_example) = 4
   \<and> length (bn_Threshold bn_example) = 1
   \<and> conv_wf conv_example
   \<and> unat (conv_out_height conv_example) * unat (conv_out_width conv_example) < 2 ^ 32
   \<and> unat (conv_out_channels conv_example) * unat (conv_in_channels conv_example)
        * unat (conv_window_size conv_example) * unat (conv_window_size conv_example) < 2 ^ 32
   \<and> unat (conv_fan_in_size conv_example) = 4
   \<and> unat (conv_connection_size conv_example) = 16 \<and> length (conv_Wbin conv_example) = 4"
  using connection_size_and_store [of fc_example bn_example conv_example]
  by (simp add: fc_wf_def bn_wf_def conv_wf_def fc_example_def bn_example_def conv_example_def
      fc_connection_size_def bn_connection_size_def conv_connection_size_def conv_fan_in_size_def)

subsection \<open>Threshold folding\<close>

lemma of_nat_mult_unat_32:
  "c * unat (n :: 32 word) < 2 ^ 32 \<Longrightarrow> unat (of_nat c * n :: 32 word) = c * unat n"
proof -
  assume a: "c * unat n < 2 ^ 32"
  have "of_nat c * n = (of_nat (c * unat n) :: 32 word)" by simp
  then show ?thesis using a by (simp only: unat_of_nat_32)
qed

lemma bn_weight_index_nat:
  assumes "c * unat (bn_out_size L) < 2 ^ 32" "unat index < 2 ^ 32"
  shows "bn_weight_index L c index = c * unat (bn_out_size L) + unat index"
proof -
  let ?p = "ucast (of_nat c * bn_out_size L :: 32 word) :: 64 word"
  have p: "unat ?p = c * unat (bn_out_size L)"
    using assms by (simp add: unat_ucast_32_64 of_nat_mult_unat_32)
  have "unat ?p + unat index < 2 ^ LENGTH(64)"
    using assms by (simp add: p)
  then have "unat (?p + index) = unat ?p + unat index"
    by (simp add: unat_add_lem [THEN iffD1])
  then show ?thesis by (simp add: bn_weight_index_def p)
qed

lemma flip_loop:
  assumes "\<And>c. c < n \<Longrightarrow> idx c < length wb" "inj_on idx {..<n}"
  shows "\<exists>wb'. for_loop [0..<n] (\<lambda>c wb.
             bind_res (vread wb (idx c)) (\<lambda>b. vwrite wb (idx c) (\<not> b))) wb = Inr wb'
          \<and> length wb' = length wb
          \<and> (\<forall>j < length wb. wb' ! j = (if j \<in> idx ` {..<n} then \<not> wb ! j else wb ! j))"
  using assms
proof (induction n)
  case 0
  show ?case by simp
next
  case (Suc n)
  let ?body = "\<lambda>c wb. bind_res (vread wb (idx c)) (\<lambda>b. vwrite wb (idx c) (\<not> b))"
  have inj: "inj_on idx {..<n}"
    using Suc.prems(2) by (rule inj_on_subset) auto
  have "\<And>c. c < n \<Longrightarrow> idx c < length wb"
    using Suc.prems(1) by simp
  from Suc.IH [OF this inj]
  obtain wb' where wb': "for_loop [0..<n] ?body wb = Inr wb'" "length wb' = length wb"
    "\<forall>j < length wb. wb' ! j = (if j \<in> idx ` {..<n} then \<not> wb ! j else wb ! j)"
    by blast
  have new: "idx n \<notin> idx ` {..<n}"
  proof
    assume "idx n \<in> idx ` {..<n}"
    then obtain c where c: "c < n" "idx n = idx c" by auto
    with Suc.prems(2) have "n = c" by (auto simp: inj_on_def)
    with c show False by simp
  qed
  have in_range: "idx n < length wb" using Suc.prems(1) by simp
  have split: "idx ` {..<Suc n} = insert (idx n) (idx ` {..<n})"
    by (simp add: lessThan_Suc)
  have "for_loop [0..<Suc n] ?body wb = bind_res (for_loop [0..<n] ?body wb) (?body n)"
    by (rule for_loop_Suc)
  also have "\<dots> = Inr (wb'[idx n := \<not> wb' ! idx n])"
    using wb' in_range by (simp add: vread_def vwrite_def)
  finally have run: "for_loop [0..<Suc n] ?body wb = Inr (wb'[idx n := \<not> wb' ! idx n])" .
  have "\<forall>j < length wb. (wb'[idx n := \<not> wb' ! idx n]) ! j
          = (if j \<in> idx ` {..<Suc n} then \<not> wb ! j else wb ! j)"
    using wb' new in_range unfolding split by (auto simp: nth_list_update)
  with run wb'(2) show ?case by simp
qed

lemma flip_column_ok:
  assumes no_wrap: "unat (bn_in_size L) * unat (bn_out_size L) < 2 ^ 32"
    and index: "unat index < unat (bn_out_size L)"
    and len: "length wb = unat (bn_in_size L) * unat (bn_out_size L)"
  shows "\<exists>wb'. flip_column L index wb = Inr wb' \<and> length wb' = length wb
     \<and> (\<forall>c < unat (bn_in_size L).
           wb' ! (c * unat (bn_out_size L) + unat index)
             = (\<not> wb ! (c * unat (bn_out_size L) + unat index)))
     \<and> (\<forall>j < length wb. j mod unat (bn_out_size L) \<noteq> unat index \<longrightarrow> wb' ! j = wb ! j)"
proof -
  let ?n = "unat (bn_in_size L)" and ?m = "unat (bn_out_size L)"
  let ?idx = "\<lambda>c. c * ?m + unat index"
  have small: "c * ?m < 2 ^ 32" if "c < ?n" for c
  proof -
    from that have "c * ?m \<le> ?n * ?m" by (intro mult_le_mono1) simp
    then show ?thesis using no_wrap by (rule le_less_trans)
  qed
  have i32: "unat index < 2 ^ 32"
    using index unat_lt_32 [of "bn_out_size L"] by simp
  have idx: "bn_weight_index L c index = ?idx c" if "c < ?n" for c
    using small [OF that] i32 by (rule bn_weight_index_nat)
  have bound: "?idx c < length wb" if "c < ?n" for c
  proof -
    from that have "Suc c * ?m \<le> ?n * ?m" by (intro mult_le_mono1) simp
    moreover have "?idx c < Suc c * ?m" using index by simp
    ultimately show ?thesis unfolding len by (rule less_le_trans [rotated])
  qed
  have inj: "inj_on ?idx {..<?n}"
  proof (rule inj_onI)
    fix c d assume "?idx c = ?idx d"
    then have "c * ?m = d * ?m" by simp
    with index show "c = d" by simp
  qed
  have loop_eq: "flip_column L index wb
      = for_loop [0..<?n] (\<lambda>c wb. bind_res (vread wb (?idx c)) (\<lambda>b. vwrite wb (?idx c) (\<not> b))) wb"
    unfolding flip_column_def
  proof (rule for_loop_cong)
    fix c s assume "c \<in> set [0..<?n]"
    then show "bind_res (vread s (bn_weight_index L c index))
          (\<lambda>b. vwrite s (bn_weight_index L c index) (\<not> b))
        = bind_res (vread s (?idx c)) (\<lambda>b. vwrite s (?idx c) (\<not> b))"
      by (simp add: idx)
  qed
  from flip_loop [of ?n ?idx wb, OF bound inj]
  obtain wb' where wb': "flip_column L index wb = Inr wb'" "length wb' = length wb"
    "\<forall>j < length wb. wb' ! j = (if j \<in> ?idx ` {..<?n} then \<not> wb ! j else wb ! j)"
    unfolding loop_eq by blast
  have flipped: "wb' ! ?idx c = (\<not> wb ! ?idx c)" if "c < ?n" for c
    using wb'(3) bound [OF that] that by auto
  have kept: "wb' ! j = wb ! j" if "j < length wb" "j mod ?m \<noteq> unat index" for j
  proof -
    have "j \<notin> ?idx ` {..<?n}"
    proof
      assume "j \<in> ?idx ` {..<?n}"
      then obtain c where "j = c * ?m + unat index" by auto
      with index have "j mod ?m = unat index" by simp
      with that show False by simp
    qed
    with wb'(3) that show ?thesis by simp
  qed
  from wb'(1,2) flipped kept show ?thesis by blast
qed


lemma raw_threshold_flip_case:
  "rnd (- 2) = - 2 \<Longrightarrow> rnd 12 = 12 \<Longrightarrow> raw_threshold rnd 10 (- 2) 1 4 = Inr 12"
  by (simp add: raw_threshold_def float_to_int_def in_int_range_def)

text \<open>Claim C1, amended: on a binarynet layer with \<open>fan_in_size() = 4\<close> (and an output
  unit \<open>index\<close> of a layer of fewer than \<open>2 ^ 30\<close> units), with a \<open>float_t\<close> that represents
  \<open>-2\<close> and \<open>12\<close>, \<open>set_threshold_from_batchnorm(index, 10, -2, 1, 4)\<close> returns; the folded
  threshold is \<open>10 - 4 / (-2) = 12\<close>, negated to \<open>-12\<close> because \<open>gamma * invstd < 0\<close>; every
  weight bit at \<open>c * out_size + index\<close>, \<open>c < 4\<close>, is negated and every other weight bit is
  kept; the thresholds of the other units are kept.\<close>

theorem threshold_fold_flip_case:
  assumes wf: "bn_wf L" and fan_in: "bn_fan_in_size L = 4"
    and out: "unat (bn_out_size L) < 2 ^ 30"
    and index: "unat index < unat (bn_out_size L)"
    and exact: "rnd (- 2) = - 2" "rnd 12 = 12"
  shows "raw_threshold rnd 10 (- 2) 1 4 = Inr 12
     \<and> (\<exists>wb. flip_if_negative rnd L index (- 2) 1 12 = Inr (- 12, wb)
        \<and> length wb = length (bn_Wbin L)
        \<and> (\<forall>c < 4. wb ! (c * unat (bn_out_size L) + unat index)
                      = (\<not> bn_Wbin L ! (c * unat (bn_out_size L) + unat index)))
        \<and> (\<forall>j < length (bn_Wbin L). j mod unat (bn_out_size L) \<noteq> unat index
               \<longrightarrow> wb ! j = bn_Wbin L ! j)
        \<and> (\<exists>L'. set_threshold_from_batchnorm rnd L index 10 (- 2) 1 4 = Inr L'
             \<and> bn_Wbin L' = wb
             \<and> length (bn_Threshold L') = length (bn_Threshold L)
             \<and> (\<forall>j < length (bn_Threshold L). j \<noteq> unat index
                    \<longrightarrow> bn_Threshold L' ! j = bn_Threshold L ! j)))"
proof -
  have "unat (bn_fan_in_size L) = unat (bn_in_size L)"
    by (simp add: bn_fan_in_size_def unat_ucast_32_64)
  with fan_in have "unat (bn_in_size L) = 4" by simp
  then have in4: "bn_in_size L = 4" by (metis of_nat_unat of_nat_numeral ucast_id)
  have n: "unat (bn_in_size L) = 4" using in4 by simp
  have no_wrap: "unat (bn_in_size L) * unat (bn_out_size L) < 2 ^ 32"
    using out by (simp add: n)
  have len: "length (bn_Wbin L) = unat (bn_in_size L) * unat (bn_out_size L)"
    using wf no_wrap by (simp add: bn_wf_def unat_mult_32)
  have thr_len: "unat index < length (bn_Threshold L)"
    using wf index by (simp add: bn_wf_def)
  from flip_column_ok [OF no_wrap index len]
  obtain wb' where wb': "flip_column L index (bn_Wbin L) = Inr wb'"
    "length wb' = length (bn_Wbin L)"
    "\<forall>c < unat (bn_in_size L).
        wb' ! (c * unat (bn_out_size L) + unat index)
          = (\<not> bn_Wbin L ! (c * unat (bn_out_size L) + unat index))"
    "\<forall>j < length (bn_Wbin L). j mod unat (bn_out_size L) \<noteq> unat index \<longrightarrow> wb' ! j = bn_Wbin L ! j"
    by blast
  have raw: "raw_threshold rnd 10 (- 2) 1 4 = Inr 12"
    using exact by (rule raw_threshold_flip_case)
  have flip: "flip_if_negative rnd L index (- 2) 1 12 = Inr (- 12, wb')"
    using exact(1) by (simp add: flip_if_negative_def in_int_range_def wb'(1))
  let ?thr = "(bn_Threshold L)[unat index := biased_threshold L (- 12)]"
  have run: "set_threshold_from_batchnorm rnd L index 10 (- 2) 1 4
      = Inr (L\<lparr>bn_Wbin := wb', bn_Threshold := ?thr\<rparr>)"
    using thr_len by (simp add: set_threshold_from_batchnorm_def raw flip vwrite_def)
  have kept: "\<forall>j < length (bn_Threshold L). j \<noteq> unat index \<longrightarrow> ?thr ! j = bn_Threshold L ! j"
    by simp
  have col: "\<forall>c < 4. wb' ! (c * unat (bn_out_size L) + unat index)
                      = (\<not> bn_Wbin L ! (c * unat (bn_out_size L) + unat index))"
    using wb'(3) by (simp add: n)
  have "\<exists>L'. set_threshold_from_batchnorm rnd L index 10 (- 2) 1 4 = Inr L'
             \<and> bn_Wbin L' = wb'
             \<and> length (bn_Threshold L') = length (bn_Threshold L)
             \<and> (\<forall>j < length (bn_Threshold L). j \<noteq> unat index
                    \<longrightarrow> bn_Threshold L' ! j = bn_Threshold L ! j)"
    using kept by (simp add: run)
  with raw flip wb'(2,4) col show ?thesis by blast
qed

text \<open>Claim C1 as stated fails: on the 4-to-1 layer the call flips the four weight bits,
  but the raw threshold is \<open>12\<close> and its negation \<open>-12\<close>, where the claim's arithmetic
  has \<open>-8\<close>, and the slot of unit \<open>0\<close> holds no \<open>-2\<close> after the call, neither read as an
  unsigned nor as a signed number.\<close>

theorem threshold_fold_flip_case_counterexample:
  "bn_fan_in_size bn_example = 4
   \<and> raw_threshold (\<lambda>x. x) 10 (- 2) 1 4 = Inr 12
   \<and> flip_if_negative (\<lambda>x. x) bn_example 0 (- 2) 1 12 = Inr (- 12, [False, True, False, False])
   \<and> set_threshold_from_batchnorm (\<lambda>x. x) bn_example 0 10 (- 2) 1 4
       = Inr (bn_example\<lparr>bn_Wbin := [False, True, False, False],
                          bn_Threshold := [9223372036854775804]\<rparr>)
   \<and> uint (9223372036854775804 :: size_t) \<noteq> - 2
   \<and> sint (9223372036854775804 :: size_t) \<noteq> - 2"
  by (simp add: set_threshold_from_batchnorm_def flip_if_negative_def raw_threshold_def
      float_to_int_def in_int_range_def
      flip_column_def bn_weight_index_def vread_def vwrite_def biased_threshold_def
      bn_fan_in_size_def bn_example_def upt_rec)

theorem threshold_fold_flip_case_witness:
  "bn_wf bn_example \<and> bn_fan_in_size bn_example = 4 \<and> unat (bn_out_size bn_example) < 2 ^ 30
   \<and> unat (0 :: size_t) < unat (bn_out_size bn_example)
   \<and> raw_threshold (\<lambda>x. x) 10 (- 2) 1 4 = Inr 12
   \<and> (\<exists>wb. flip_if_negative (\<lambda>x. x) bn_example 0 (- 2) 1 12 = Inr (- 12, wb)
        \<and> wb ! 0 = (\<not> bn_Wbin bn_example ! 0)
        \<and> wb ! 1 = (\<not> bn_Wbin bn_example ! 1)
        \<and> wb ! 2 = (\<not> bn_Wbin bn_example ! 2)
        \<and> wb ! 3 = (\<not> bn_Wbin bn_example ! 3)
        \<and> length wb = 4
        \<and> (\<exists>L'. set_threshold_from_batchnorm (\<lambda>x. x) bn_example 0 10 (- 2) 1 4 = Inr L'
             \<and> bn_Wbin L' = wb \<and> length (bn_Threshold L') = 1))"
proof -
  have h: "bn_wf bn_example" "bn_fan_in_size bn_example = 4"
    "unat (bn_out_size bn_example) < 2 ^ 30" "unat (0 :: size_t) < unat (bn_out_size bn_example)"
    "(\<lambda>x :: real. x) (- 2) = - 2" "(\<lambda>x :: real. x) 12 = 12"
    by (simp_all add: bn_wf_def bn_example_def bn_fan_in_size_def)
  from threshold_fold_flip_case [OF h]
  obtain wb L' where raw: "raw_threshold (\<lambda>x. x) 10 (- 2) 1 4 = Inr 12"
    and flip: "flip_if_negative (\<lambda>x. x) bn_example 0 (- 2) 1 12 = Inr (- 12, wb)"
    and len: "length wb = length (bn_Wbin bn_example)"
    and col: "\<forall>c < 4. wb ! (c * unat (bn_out_size bn_example) + unat (0 :: size_t))
                   = (\<not> bn_Wbin bn_example ! (c * unat (bn_out_size bn_example) + unat (0 :: size_t)))"
    and L': "set_threshold_from_batchnorm (\<lambda>x. x) bn_example 0 10 (- 2) 1 4 = Inr L'"
      "bn_Wbin L' = wb" "length (bn_Threshold L') = length (bn_Threshold bn_example)"
    by blast
  have out1: "unat (bn_out_size bn_example) = 1" by (simp add: bn_example_def)
  have cells: "wb ! c = (\<not> bn_Wbin bn_example ! c)" if "c < 4" for c
    using col that by (simp add: out1)
  have len4: "length wb = 4" using len by (simp add: bn_example_def)
  have len1: "length (bn_Threshold L') = 1" using L'(3) by (simp add: bn_example_def)
  have "wb ! 0 = (\<not> bn_Wbin bn_example ! 0)" "wb ! 1 = (\<not> bn_Wbin bn_example ! 1)"
    "wb ! 2 = (\<not> bn_Wbin bn_example ! 2)" "wb ! 3 = (\<not> bn_Wbin bn_example ! 3)"
    by (simp_all add: cells)
  with h(1-4) raw flip len4 L'(1,2) len1 show ?thesis by blast
qed

subsection \<open>Text persistence\<close>

lemma fold_put_num:
  "fold (\<lambda>x os. put_num os (f x)) xs os = os @ map (\<lambda>x. Num (f x)) xs"
  by (induction xs arbitrary: os) (simp_all add: put_num_def)

lemma save_tokens:
  "save L os = os @ map (\<lambda>w. Num (if w then 1 else 0)) (bn_Wbin L)
                  @ map (\<lambda>thr. Num (unat thr)) (bn_Threshold L)"
  by (simp add: save_def fold_put_num)

lemma get_bool_bit_token:
  "get_bool \<lparr>is_tokens = bit_token b # ts, is_fail = False\<rparr> w
     = (\<lparr>is_tokens = ts, is_fail = False\<rparr>, Some b)"
  by (simp add: get_bool_def bit_token_def)

lemma load_weights_loop:
  assumes "n \<le> length bs" "length bs \<le> length wbin"
  shows "for_loop [0..<n] (\<lambda>i (s, w, wbin).
       (case get_bool s w of
          (s', None) \<Rightarrow> Inl Undefined
        | (s', Some b) \<Rightarrow> bind_res (vwrite wbin i b) (\<lambda>wbin'. Inr (s', Some b, wbin'))))
     (\<lparr>is_tokens = map bit_token bs @ rest, is_fail = False\<rparr>, w, wbin)
   = Inr (\<lparr>is_tokens = map bit_token (drop n bs) @ rest, is_fail = False\<rparr>,
          (if n = 0 then w else Some (bs ! (n - 1))), take n bs @ drop n wbin)"
  using assms
proof (induction n)
  case 0
  show ?case by simp
next
  case (Suc n)
  let ?body = "\<lambda>i (s, w, wbin).
       (case get_bool s w of
          (s', None) \<Rightarrow> Inl Undefined
        | (s', Some b) \<Rightarrow> bind_res (vwrite wbin i b) (\<lambda>wbin'. Inr (s', Some b, wbin')))"
  let ?s0 = "(\<lparr>is_tokens = map bit_token bs @ rest, is_fail = False\<rparr>, w, wbin)"
  have d: "drop n bs = bs ! n # drop (Suc n) bs"
    using Suc.prems by (simp add: Cons_nth_drop_Suc)
  have t: "take (Suc n) bs = take n bs @ [bs ! n]"
    using Suc.prems by (simp add: take_Suc_conv_app_nth)
  have upd: "(take n bs @ drop n wbin)[n := bs ! n] = take (Suc n) bs @ drop (Suc n) wbin"
    using Suc.prems by (simp add: t list_update_append upd_conv_take_nth_drop)
  have "for_loop [0..<Suc n] ?body ?s0 = bind_res (for_loop [0..<n] ?body ?s0) (?body n)"
    by (rule for_loop_Suc)
  also have "\<dots> = ?body n (\<lparr>is_tokens = map bit_token (drop n bs) @ rest, is_fail = False\<rparr>,
          (if n = 0 then w else Some (bs ! (n - 1))), take n bs @ drop n wbin)"
    using Suc.prems by (simp add: Suc.IH)
  also have "\<dots> = Inr (\<lparr>is_tokens = map bit_token (drop (Suc n) bs) @ rest, is_fail = False\<rparr>,
          Some (bs ! n), take (Suc n) bs @ drop (Suc n) wbin)"
    using Suc.prems by (simp add: d get_bool_bit_token vwrite_def upd)
  finally show ?case by simp
qed

lemma load_weights_ok:
  assumes "length bs = unat (bn_in_size L * bn_out_size L)" "length bs = length wbin"
  shows "\<exists>w'. load_weights L (\<lparr>is_tokens = map bit_token bs @ rest, is_fail = False\<rparr>, w, wbin)
           = Inr (\<lparr>is_tokens = rest, is_fail = False\<rparr>, w', bs)"
  using load_weights_loop [of "length bs" bs wbin rest w] assms
  by (simp add: load_weights_def)

lemma load_thresholds_ok:
  "length ts = length thrs \<Longrightarrow>
   load_thresholds \<lparr>is_tokens = map (\<lambda>t. Num (unat t)) ts @ rest, is_fail = False\<rparr> thrs
     = (\<lparr>is_tokens = rest, is_fail = False\<rparr>, ts)"
proof (induction ts thrs rule: list_induct2)
  case Nil
  show ?case by simp
next
  case (Cons t ts thr thrs)
  have "unat t < 2 ^ 64" using unsigned_less [of t] by simp
  then show ?case by (simp add: get_size_t_def Cons.IH)
qed

lemma load_well_formed:
  assumes "bn_wf L" "length bs = length (bn_Wbin L)" "length ts = length (bn_Threshold L)"
  shows "load L \<lparr>is_tokens = map bit_token bs @ map (\<lambda>t. Num (unat t)) ts @ rest, is_fail = False\<rparr>
       = Inr (L\<lparr>bn_Wbin := bs, bn_Threshold := ts\<rparr>, \<lparr>is_tokens = rest, is_fail = False\<rparr>)"
proof -
  have n: "length bs = unat (bn_in_size L * bn_out_size L)"
    using assms by (simp add: bn_wf_def)
  from load_weights_ok [OF n assms(2), of "map (\<lambda>t. Num (unat t)) ts @ rest" None]
  obtain w' where "load_weights L
       (\<lparr>is_tokens = map bit_token bs @ map (\<lambda>t. Num (unat t)) ts @ rest, is_fail = False\<rparr>,
        None, bn_Wbin L)
     = Inr (\<lparr>is_tokens = map (\<lambda>t. Num (unat t)) ts @ rest, is_fail = False\<rparr>, w', bs)"
    by blast
  then show ?thesis
    using assms(3) by (simp add: load_def load_thresholds_ok)
qed

lemma get_bool_Some: "\<exists>s' b'. get_bool s (Some b) = (s', Some b')"
  by (auto simp: get_bool_def split: list.split token.split)

lemma get_bool_first:
  "\<not> is_fail s \<Longrightarrow> is_tokens s \<noteq> [] \<Longrightarrow> \<exists>s' b'. get_bool s w = (s', Some b')"
  by (auto simp: get_bool_def split: list.split token.split)

lemma load_weights_body_total:
  assumes "\<forall>i \<in> set xs. i < length wbin"
  shows "\<exists>s' b' wbin'. for_loop xs (\<lambda>i (s, w, wbin).
       (case get_bool s w of
          (s', None) \<Rightarrow> Inl Undefined
        | (s', Some b) \<Rightarrow> bind_res (vwrite wbin i b) (\<lambda>wbin'. Inr (s', Some b, wbin'))))
     (s, Some b, wbin) = Inr (s', Some b', wbin') \<and> length wbin' = length wbin"
  using assms
proof (induction xs arbitrary: s b wbin)
  case Nil
  show ?case by simp
next
  case (Cons x xs)
  obtain s1 b1 where g: "get_bool s (Some b) = (s1, Some b1)"
    using get_bool_Some by blast
  have x: "x < length wbin" using Cons.prems by simp
  have "\<forall>i \<in> set xs. i < length (wbin[x := b1])" using Cons.prems by simp
  from Cons.IH [OF this, of s1 b1] x g show ?case
    by (simp add: vwrite_def)
qed

lemma load_thresholds_length:
  "load_thresholds s thrs = (s', thrs') \<Longrightarrow> length thrs' = length thrs"
  by (induction thrs arbitrary: s s' thrs') (auto split: prod.splits)

lemma load_total:
  assumes "length (bn_Wbin L) = unat (bn_in_size L * bn_out_size L)"
    and "\<not> is_fail s" "is_tokens s \<noteq> []"
  shows "\<exists>L' s'. load L s = Inr (L', s')
     \<and> length (bn_Wbin L') = length (bn_Wbin L)
     \<and> length (bn_Threshold L') = length (bn_Threshold L)"
proof (cases "unat (bn_in_size L * bn_out_size L)")
  case 0
  then show ?thesis
    using assms(1)
    by (auto simp: load_def load_weights_def split: prod.split dest: load_thresholds_length)
next
  case (Suc m)
  let ?body = "\<lambda>i (s, w, wbin).
       (case get_bool s w of
          (s', None) \<Rightarrow> Inl Undefined
        | (s', Some b) \<Rightarrow> bind_res (vwrite wbin i b) (\<lambda>wbin'. Inr (s', Some b, wbin')))"
  obtain s1 b1 where g: "get_bool s None = (s1, Some b1)"
    using get_bool_first [OF assms(2,3)] by blast
  have upt: "[0..<Suc m] = 0 # [1..<Suc m]" by (simp add: upt_conv_Cons)
  have len0: "0 < length (bn_Wbin L)" using assms(1) Suc by simp
  have "\<forall>i \<in> set [1..<Suc m]. i < length ((bn_Wbin L)[0 := b1])"
    using assms(1) Suc by (simp del: upt_Suc)
  from load_weights_body_total [OF this, of s1 b1]
  obtain s2 b2 wbin2 where r: "for_loop [1..<Suc m] ?body (s1, Some b1, (bn_Wbin L)[0 := b1])
      = Inr (s2, Some b2, wbin2)" "length wbin2 = length (bn_Wbin L)"
    by auto
  have first: "?body 0 (s, None, bn_Wbin L) = Inr (s1, Some b1, (bn_Wbin L)[0 := b1])"
    using g len0 by (simp add: vwrite_def)
  have "load_weights L (s, None, bn_Wbin L)
      = bind_res (?body 0 (s, None, bn_Wbin L)) (for_loop [1..<Suc m] ?body)"
    unfolding load_weights_def Suc upt by (simp only: for_loop.simps)
  also have "\<dots> = for_loop [1..<Suc m] ?body (s1, Some b1, (bn_Wbin L)[0 := b1])"
    by (simp only: first bind_res_Inr)
  finally have w: "load_weights L (s, None, bn_Wbin L) = Inr (s2, Some b2, wbin2)"
    by (simp only: r(1))
  show ?thesis
    using r(2)
    by (auto simp: load_def w split: prod.split dest: load_thresholds_length)
qed


lemma new_binarynet_layer_wf: "bn_wf (new_binarynet_layer in_dim out_dim offload workers)"
  by (simp add: bn_wf_def new_binarynet_layer_def list_all_length)

text \<open>Claim C5: for any binarynet layer state (weight bits and thresholds of the sizes
  the class keeps), \<open>save\<close> to an empty stream followed by \<open>load\<close> from that stream into a
  freshly constructed layer of the same \<open>in_size\<close> and \<open>out_size\<close> returns, consumes the
  whole stream without setting its fail bit, and leaves the fresh layer with exactly the
  saved weight bits and thresholds.\<close>

theorem save_load_round_trip:
  assumes "bn_wf L"
  shows "load (new_binarynet_layer (bn_in_size L) (bn_out_size L) offload workers)
           \<lparr>is_tokens = save L [], is_fail = False\<rparr>
       = Inr ((new_binarynet_layer (bn_in_size L) (bn_out_size L) offload workers)
                \<lparr>bn_Wbin := bn_Wbin L, bn_Threshold := bn_Threshold L\<rparr>,
              \<lparr>is_tokens = [], is_fail = False\<rparr>)"
proof -
  let ?F = "new_binarynet_layer (bn_in_size L) (bn_out_size L) offload workers"
  have 1: "length (bn_Wbin L) = length (bn_Wbin ?F)"
    and 2: "length (bn_Threshold L) = length (bn_Threshold ?F)"
    using assms by (simp_all add: bn_wf_def new_binarynet_layer_def)
  have "save L [] = map bit_token (bn_Wbin L) @ map (\<lambda>t. Num (unat t)) (bn_Threshold L) @ []"
    by (simp add: save_tokens bit_token_def)
  then show ?thesis
    using load_well_formed [OF new_binarynet_layer_wf 1 2, of "[]"] by simp
qed

theorem save_load_round_trip_witness:
  "bn_wf bn_example
   \<and> save bn_example [] = [Num 1, Num 0, Num 1, Num 1, Num 3]
   \<and> load (new_binarynet_layer 4 1 None 1) \<lparr>is_tokens = save bn_example [], is_fail = False\<rparr>
       = Inr ((new_binarynet_layer 4 1 None 1)
                \<lparr>bn_Wbin := [True, False, True, True], bn_Threshold := [3]\<rparr>,
              \<lparr>is_tokens = [], is_fail = False\<rparr>)"
proof -
  have h: "bn_wf bn_example" by (simp add: bn_wf_def bn_example_def)
  have "save bn_example [] = [Num 1, Num 0, Num 1, Num 1, Num 3]"
    by (simp add: save_def put_num_def bn_example_def)
  with h save_load_round_trip [OF h, of None 1] show ?thesis
    by (simp add: bn_example_def)
qed

text \<open>Claim C6 as stated fails: \<open>load\<close> has no rejection path. On a stream that
  holds one token where the 4-to-1 layer needs five, it returns normally, and the
  stored weight bits \<open>[true, false, true, true]\<close> have been overwritten.\<close>

theorem load_rejects_counterexample:
  "load bn_example \<lparr>is_tokens = [Num 0], is_fail = False\<rparr>
     = Inr (bn_example\<lparr>bn_Wbin := [False, False, False, False]\<rparr>,
            \<lparr>is_tokens = [], is_fail = True\<rparr>)
   \<and> bn_Wbin bn_example \<noteq> [False, False, False, False]"
  by (simp add: load_def load_weights_def get_bool_def get_size_t_def vwrite_def
      bn_example_def upt_rec)

text \<open>Claim C6, amended: \<open>load\<close> reads \<open>in_size * out_size\<close> weight-bit tokens and then
  \<open>out_size\<close> threshold tokens, in that order. When the stream starts with exactly these
  tokens (numerals \<open>0\<close> or \<open>1\<close>, then numerals below \<open>2 ^ 64\<close>) it stores them and
  consumes exactly them, leaving what follows unread. It never rejects: on every stream
  whose first token can be read, whatever follows, it returns normally with the sizes of
  both vectors unchanged; nothing protects the weights and thresholds the layer held.\<close>

theorem load_consumes_without_rejecting:
  "(bn_wf L \<and> length bs = length (bn_Wbin L) \<and> length ts = length (bn_Threshold L) \<longrightarrow>
      load L \<lparr>is_tokens = map bit_token bs @ map (\<lambda>t. Num (unat t)) ts @ rest, is_fail = False\<rparr>
        = Inr (L\<lparr>bn_Wbin := bs, bn_Threshold := ts\<rparr>, \<lparr>is_tokens = rest, is_fail = False\<rparr>))
   \<and> (bn_wf L \<and> \<not> is_fail s \<and> is_tokens s \<noteq> [] \<longrightarrow>
      (\<exists>L' s'. load L s = Inr (L', s')
         \<and> length (bn_Wbin L') = length (bn_Wbin L)
         \<and> length (bn_Threshold L') = length (bn_Threshold L)))"
proof (intro conjI impI)
  assume "bn_wf L \<and> length bs = length (bn_Wbin L) \<and> length ts = length (bn_Threshold L)"
  then show "load L \<lparr>is_tokens = map bit_token bs @ map (\<lambda>t. Num (unat t)) ts @ rest, is_fail = False\<rparr>
        = Inr (L\<lparr>bn_Wbin := bs, bn_Threshold := ts\<rparr>, \<lparr>is_tokens = rest, is_fail = False\<rparr>)"
    by (simp add: load_well_formed)
next
  assume "bn_wf L \<and> \<not> is_fail s \<and> is_tokens s \<noteq> []"
  then show "\<exists>L' s'. load L s = Inr (L', s')
         \<and> length (bn_Wbin L') = length (bn_Wbin L)
         \<and> length (bn_Threshold L') = length (bn_Threshold L)"
    by (intro load_total) (simp_all add: bn_wf_def)
qed

theorem load_consumes_without_rejecting_witness:
  "bn_wf bn_example
   \<and> length [False, True, True, False] = length (bn_Wbin bn_example)
   \<and> length [7 :: size_t] = length (bn_Threshold bn_example)
   \<and> load bn_example \<lparr>is_tokens = [Num 0, Num 1, Num 1, Num 0, Num 7, Junk, Num 5], is_fail = False\<rparr>
        = Inr (bn_example\<lparr>bn_Wbin := [False, True, True, False], bn_Threshold := [7]\<rparr>,
               \<lparr>is_tokens = [Junk, Num 5], is_fail = False\<rparr>)
   \<and> \<not> is_fail \<lparr>is_tokens = [Num 1, Junk], is_fail = False\<rparr>
   \<and> is_tokens \<lparr>is_tokens = [Num 1, Junk], is_fail = False\<rparr> \<noteq> []
   \<and> load bn_example \<lparr>is_tokens = [Num 1, Junk], is_fail = False\<rparr>
        = Inr (bn_example\<lparr>bn_Wbin := [True, False, False, False]\<rparr>,
               \<lparr>is_tokens = [Junk], is_fail = True\<rparr>)"
  using load_consumes_without_rejecting
    [of bn_example "[False, True, True, False]" "[7]" "[Junk, Num 5]"
        "\<lparr>is_tokens = [Num 1, Junk], is_fail = False\<rparr>"]
  by (simp add: load_def load_weights_def get_bool_def get_size_t_def vwrite_def
      bn_example_def bn_wf_def bit_token_def upt_rec)

subsection \<open>Class invariants\<close>

text \<open>The constructors establish the size invariants; \<open>post_update\<close>,
  \<open>set_threshold_from_batchnorm\<close>, \<open>load\<close> and \<open>loadFromBinaryFile\<close> keep them whenever
  they return.\<close>

lemma for_loop_invariant:
  assumes "for_loop xs body s = Inr s'" "P s"
    and "\<And>i t t'. i \<in> set xs \<Longrightarrow> P t \<Longrightarrow> body i t = Inr t' \<Longrightarrow> P t'"
  shows "P s'"
  using assms
proof (induction xs arbitrary: s)
  case Nil
  then show ?case by simp
next
  case (Cons x xs)
  from Cons.prems(1) obtain t where t: "body x s = Inr t" "for_loop xs body t = Inr s'"
    by (cases "body x s") simp_all
  have "P t" by (rule Cons.prems(3) [of x s t]) (use Cons.prems(2) t(1) in simp_all)
  have step: "P u'" if "i \<in> set xs" "P u" "body i u = Inr u'" for i u u'
    by (rule Cons.prems(3) [of i u u']) (use that in simp_all)
  from t(2) \<open>P t\<close> step show ?case by (rule Cons.IH)
qed

lemma vwrite_length: "vwrite xs i v = Inr ys \<Longrightarrow> length ys = length xs"
  by (auto simp: vwrite_def split: if_splits)

lemma float2bipolar_length: "float2bipolar inp out = Inr out' \<Longrightarrow> length out' = length out"
  unfolding float2bipolar_def
  by (erule for_loop_invariant [where P = "\<lambda>t. length t = length out"])
     (simp_all add: vwrite_length)

lemma new_binarized_fc_layer_wf:
  "new_binarized_fc_layer in_dim out_dim workers = Inr L \<Longrightarrow> fc_wf L"
  by (auto simp: new_binarized_fc_layer_def fc_wf_def fc_connection_size_def Let_def
      list_all_length split: if_splits)

lemma fc_post_update_wf: "fc_wf L \<Longrightarrow> fc_post_update L = Inr L' \<Longrightarrow> fc_wf L'"
  by (auto simp: fc_post_update_def float2bipolar_uint_def fc_wf_def fc_connection_size_def
      bind_res_eq_Inr dest: float2bipolar_length split: if_splits)

lemma bn_post_update_wf: "bn_wf L \<Longrightarrow> bn_post_update L = Inr L' \<Longrightarrow> bn_wf L'"
  by (auto simp: bn_post_update_def bn_wf_def bind_res_eq_Inr dest: float2bipolar_length)

lemma conv_post_update_wf: "conv_wf L \<Longrightarrow> conv_post_update L = Inr L' \<Longrightarrow> conv_wf L'"
  by (auto simp: conv_post_update_def conv_wf_def bind_res_eq_Inr dest: float2bipolar_length)

lemma flip_column_length: "flip_column L index wb = Inr wb' \<Longrightarrow> length wb' = length wb"
  unfolding flip_column_def
  by (erule for_loop_invariant [where P = "\<lambda>t. length t = length wb"])
     (auto simp: bind_res_eq_Inr dest: vwrite_length)

lemma set_threshold_from_batchnorm_wf:
  "bn_wf L \<Longrightarrow> set_threshold_from_batchnorm rnd L index mean gamma invstd beta = Inr L'
     \<Longrightarrow> bn_wf L'"
  by (auto simp: set_threshold_from_batchnorm_def flip_if_negative_def bn_wf_def bind_res_eq_Inr
      dest: flip_column_length vwrite_length split: if_splits)

lemma load_weights_length:
  "load_weights L (s, w, wbin) = Inr (s', w', wbin') \<Longrightarrow> length wbin' = length wbin"
  unfolding load_weights_def
  by (drule for_loop_invariant [where P = "\<lambda>st. length (snd (snd st)) = length wbin"])
     (auto simp: bind_res_eq_Inr dest: vwrite_length split: prod.splits option.splits)

lemma load_wf:
  assumes "bn_wf L" "load L s = Inr (L', s')"
  shows "bn_wf L'"
proof -
  from assms(2) obtain s1 w wbin where w: "load_weights L (s, None, bn_Wbin L) = Inr (s1, w, wbin)"
    by (auto simp: load_def bind_res_eq_Inr)
  obtain s2 thrs where t: "load_thresholds s1 (bn_Threshold L) = (s2, thrs)"
    by (cases "load_thresholds s1 (bn_Threshold L)")
  from assms(2) w t have L': "L' = L\<lparr>bn_Wbin := wbin, bn_Threshold := thrs\<rparr>"
    by (simp add: load_def)
  have "length wbin = length (bn_Wbin L)" using w by (rule load_weights_length)
  moreover have "length thrs = length (bn_Threshold L)" using t by (rule load_thresholds_length)
  ultimately show ?thesis using assms(1) by (simp add: L' bn_wf_def)
qed

lemma loadFromBinaryFile_Some:
  "loadFromBinaryFile L (Some bytes)
     = Inr (L\<lparr>conv_Wbin := map (\<lambda>i. le_value (chunk bytes i) = 1) [0..<length (conv_Wbin L)]\<rparr>)"
  using load_loop [of "length (conv_Wbin L)" "conv_Wbin L" bytes]
  by (simp add: loadFromBinaryFile_def file_after_def)

lemma loadFromBinaryFile_wf:
  assumes "conv_wf L" "loadFromBinaryFile L opened = Inr L'"
  shows "conv_wf L'"
proof (cases opened)
  case None
  with assms(2) show ?thesis by (simp add: loadFromBinaryFile_def)
next
  case (Some bytes)
  with assms(2) have "L' = L\<lparr>conv_Wbin := map (\<lambda>i. le_value (chunk bytes i) = 1) [0..<length (conv_Wbin L)]\<rparr>"
    by (simp add: loadFromBinaryFile_Some)
  with assms(1) show ?thesis by (auto simp: conv_wf_def)
qed

lemma new_bnn_conv_layer_wf:
  "new_bnn_conv_layer in_width in_height window_size in_channels out_channels use_popcount
     binaryParamFile workers = Inr L \<Longrightarrow> conv_wf L"
proof -
  let ?L0 = "\<lparr> conv_use_popcount = use_popcount,
                conv_Wbin = replicate (unat (out_channels * in_channels * window_size * window_size)) False,
                conv_in_width = in_width, conv_in_height = in_height,
                conv_window_size = window_size,
                conv_in_channels = in_channels, conv_out_channels = out_channels,
                conv_out_width = in_width - window_size + 1,
                conv_out_height = in_height - window_size + 1,
                conv_W = replicate (unat (out_channels * in_channels * window_size * window_size)) 0,
                conv_output = replicate workers (replicate
                   (unat ((in_width - window_size + 1) * (in_height - window_size + 1) * out_channels)) 0) \<rparr>"
  assume a: "new_bnn_conv_layer in_width in_height window_size in_channels out_channels use_popcount
     binaryParamFile workers = Inr L"
  have wf0: "conv_wf ?L0" by (simp add: conv_wf_def list_all_length)
  show ?thesis
  proof (cases binaryParamFile)
    case None
    with a wf0 show ?thesis by (simp add: new_bnn_conv_layer_def Let_def)
  next
    case (Some f)
    with a have "loadFromBinaryFile ?L0 f = Inr L"
      by (simp add: new_bnn_conv_layer_def Let_def)
    with wf0 show ?thesis by (rule loadFromBinaryFile_wf)
  qed
qed

subsection \<open>Forward propagation of the fully-connected layers\<close>

lemma unit_loop:
  fixes step :: "bool \<Rightarrow> bool \<Rightarrow> real"
  assumes "i < length a" "\<And>c. c < n \<Longrightarrow> widx c < length wbin \<and> c < length in_bin"
  shows "for_loop [0..<n] (\<lambda>c a.
       bind_res (vread wbin (widx c)) (\<lambda>w.
       bind_res (vread in_bin c) (\<lambda>x.
       bind_res (vread a i) (\<lambda>v. vwrite a i (v + step w x))))) a
     = Inr (a[i := a ! i + (\<Sum>c<n. step (wbin ! widx c) (in_bin ! c))])"
  using assms(2)
proof (induction n)
  case 0
  show ?case by simp
next
  case (Suc n)
  let ?body = "\<lambda>c a.
       bind_res (vread wbin (widx c)) (\<lambda>w.
       bind_res (vread in_bin c) (\<lambda>x.
       bind_res (vread a i) (\<lambda>v. vwrite a i (v + step w x))))"
  let ?S = "\<lambda>n. \<Sum>c<n. step (wbin ! widx c) (in_bin ! c)"
  have IH: "for_loop [0..<n] ?body a = Inr (a[i := a ! i + ?S n])"
    using Suc.IH Suc.prems by simp
  have n: "widx n < length wbin" "n < length in_bin"
    using Suc.prems [of n] by simp_all
  have "for_loop [0..<Suc n] ?body a = bind_res (for_loop [0..<n] ?body a) (?body n)"
    by (rule for_loop_Suc)
  also have "\<dots> = ?body n (a[i := a ! i + ?S n])"
    by (simp only: IH bind_res_Inr)
  also have "\<dots> = Inr (a[i := a ! i + ?S (Suc n)])"
    using n assms(1) by (simp add: vread_def vwrite_def add.assoc)
  finally show ?case .
qed

lemma fc_index_nat:
  assumes "unat (n :: 32 word) * unat (m :: 32 word) < 2 ^ 32" "c < unat n" "i < unat m"
  shows "unat (of_nat c * m + of_nat i :: 32 word) = c * unat m + i"
proof -
  have "Suc c * unat m \<le> unat n * unat m"
    using assms(2) by (intro mult_le_mono1) simp
  moreover have "c * unat m + i < Suc c * unat m" using assms(3) by simp
  ultimately have lt: "c * unat m + i < 2 ^ 32" using assms(1) by linarith
  have "of_nat c * m + of_nat i = (of_nat (c * unat m + i) :: 32 word)" by simp
  then show ?thesis using lt by (simp only: unat_of_nat_32)
qed

lemma fc_index_bound:
  assumes "c < n" "i < (m :: nat)"
  shows "c * m + i < n * m"
proof -
  have "Suc c * m \<le> n * m" using assms(1) by (intro mult_le_mono1) simp
  moreover have "c * m + i < Suc c * m" using assms(2) by simp
  ultimately show ?thesis by linarith
qed


lemma fill_loop:
  assumes body: "\<And>i s. i < k \<Longrightarrow> length s = N \<Longrightarrow> body i s = Inr (s[i := f i])"
    and "k \<le> N" "length s = N"
  shows "for_loop [0..<k] body s = Inr (map f [0..<k] @ drop k s)"
  using assms
proof (induction k)
  case 0
  show ?case by simp
next
  case (Suc k)
  let ?mid = "map f [0..<k] @ drop k s"
  have body': "body i s = Inr (s[i := f i])" if "i < k" "length s = N" for i s
    using that by (intro Suc.prems(1)) simp_all
  have "k \<le> N" using Suc.prems(2) by simp
  with body' have IH: "for_loop [0..<k] body s = Inr ?mid"
    using Suc.prems(3) by (rule Suc.IH)
  have len: "length ?mid = N" using Suc.prems(2,3) by simp
  have upd: "?mid[k := f k] = map f [0..<Suc k] @ drop (Suc k) s"
    using Suc.prems(2,3) by (simp add: list_update_append upd_conv_take_nth_drop)
  have "for_loop [0..<Suc k] body s = bind_res (for_loop [0..<k] body s) (body k)"
    by (rule for_loop_Suc)
  also have "\<dots> = body k ?mid" by (simp only: IH bind_res_Inr)
  also have "\<dots> = Inr (?mid[k := f k])" using Suc.prems(1) [of k ?mid] len by simp
  finally show ?case by (simp only: upd)
qed

lemma fill_loop2:
  assumes body: "\<And>i a out. i < k \<Longrightarrow> length a = Na \<Longrightarrow> length out = No
                   \<Longrightarrow> body i (a, out) = Inr (a[i := f i], out[i := g i])"
    and "k \<le> Na" "k \<le> No" "length a = Na" "length out = No"
  shows "for_loop [0..<k] body (a, out)
     = Inr (map f [0..<k] @ drop k a, map g [0..<k] @ drop k out)"
  using assms
proof (induction k)
  case 0
  show ?case by simp
next
  case (Suc k)
  let ?a = "map f [0..<k] @ drop k a" and ?o = "map g [0..<k] @ drop k out"
  have body': "body i (a, out) = Inr (a[i := f i], out[i := g i])"
    if "i < k" "length a = Na" "length out = No" for i a out
    using that by (intro Suc.prems(1)) simp_all
  have "k \<le> Na" "k \<le> No" using Suc.prems(2,3) by simp_all
  with body' have IH: "for_loop [0..<k] body (a, out) = Inr (?a, ?o)"
    using Suc.prems(4,5) by (rule Suc.IH)
  have len: "length ?a = Na" "length ?o = No" using Suc.prems(2-5) by simp_all
  have upd: "?a[k := f k] = map f [0..<Suc k] @ drop (Suc k) a"
    "?o[k := g k] = map g [0..<Suc k] @ drop (Suc k) out"
    using Suc.prems(2-5) by (simp_all add: list_update_append upd_conv_take_nth_drop)
  have "for_loop [0..<Suc k] body (a, out) = bind_res (for_loop [0..<k] body (a, out)) (body k)"
    by (rule for_loop_Suc)
  also have "\<dots> = body k (?a, ?o)" by (simp only: IH bind_res_Inr)
  also have "\<dots> = Inr (?a[k := f k], ?o[k := g k])"
    using Suc.prems(1) [of k ?a ?o] len by simp
  finally show ?case by (simp only: upd)
qed

lemma fc_unit_ok:
  assumes wf: "fc_wf L" and i: "i < unat (fc_out_size L)" "i < length a"
    and in_bin: "length in_bin = unat (fc_in_size L)"
  shows "fc_unit L in_bin i a = Inr (a[i := fc_acc L in_bin i])"
proof -
  let ?n = "unat (fc_in_size L)" and ?m = "unat (fc_out_size L)"
  have nm: "?n * ?m < 2 ^ 32" and len: "length (fc_Wbin L) = ?n * ?m"
    using wf by (simp_all add: fc_wf_def fc_connection_size_unat)
  let ?widx = "\<lambda>c. c * ?m + i"
  let ?body = "\<lambda>c a.
       bind_res (vread (fc_Wbin L) (?widx c)) (\<lambda>w.
       bind_res (vread in_bin c) (\<lambda>x.
       bind_res (vread a i) (\<lambda>v. vwrite a i (v + signed_step w x))))"
  have loop_eq: "for_loop [0..<?n] (\<lambda>c a.
       bind_res (vread (fc_Wbin L) (unat (of_nat c * fc_out_size L + of_nat i :: serial_size_t))) (\<lambda>w.
       bind_res (vread in_bin c) (\<lambda>x.
       bind_res (vread a i) (\<lambda>v. vwrite a i (v + signed_step w x))))) s
     = for_loop [0..<?n] ?body s" for s :: vec_t
    by (rule for_loop_cong) (simp add: fc_index_nat [OF nm _ i(1)])
  have rng: "?widx c < length (fc_Wbin L) \<and> c < length in_bin" if "c < ?n" for c
    using that fc_index_bound [OF that i(1)] by (simp add: len in_bin)
  have "for_loop [0..<?n] ?body (a[i := 0])
      = Inr ((a[i := 0])[i := (a[i := 0]) ! i
           + (\<Sum>c<?n. signed_step (fc_Wbin L ! ?widx c) (in_bin ! c))])"
    by (rule unit_loop) (use i rng in simp_all)
  then have res: "for_loop [0..<?n] ?body (a[i := 0]) = Inr (a[i := fc_acc L in_bin i])"
    using i by (simp add: fc_acc_def)
  have w0: "vwrite a i 0 = Inr (a[i := 0])" using i by (simp add: vwrite_def)
  show ?thesis
    unfolding fc_unit_def by (simp only: w0 bind_res_Inr loop_eq res)
qed

lemma bn_unit_ok:
  assumes wf: "bn_wf L" and nm: "unat (bn_in_size L) * unat (bn_out_size L) < 2 ^ 32"
    and i: "i < unat (bn_out_size L)" "i < length a" "i < length out"
    and in_bin: "length in_bin = unat (bn_in_size L)"
  shows "bn_unit L in_bin i (a, out)
     = Inr (a[i := bn_acc L in_bin i],
            out[i := if bn_acc L in_bin i \<ge> real (unat (bn_Threshold L ! i)) then 1 else - 1])"
proof -
  let ?n = "unat (bn_in_size L)" and ?m = "unat (bn_out_size L)"
  have len: "length (bn_Wbin L) = ?n * ?m" and thr: "i < length (bn_Threshold L)"
    using wf nm i(1) by (simp_all add: bn_wf_def unat_mult_32)
  let ?widx = "\<lambda>c. c * ?m + i"
  let ?body = "\<lambda>c a.
       bind_res (vread (bn_Wbin L) (?widx c)) (\<lambda>w.
       bind_res (vread in_bin c) (\<lambda>x.
       bind_res (vread a i) (\<lambda>v. vwrite a i (v + popcount_step w x))))"
  have loop_eq: "for_loop [0..<?n] (\<lambda>c a.
       bind_res (vread (bn_Wbin L) (unat (of_nat c * bn_out_size L + of_nat i :: serial_size_t))) (\<lambda>w.
       bind_res (vread in_bin c) (\<lambda>x.
       bind_res (vread a i) (\<lambda>v. vwrite a i (v + popcount_step w x))))) s
     = for_loop [0..<?n] ?body s" for s :: vec_t
    by (rule for_loop_cong) (simp add: fc_index_nat [OF nm _ i(1)])
  have rng: "?widx c < length (bn_Wbin L) \<and> c < length in_bin" if "c < ?n" for c
    using that fc_index_bound [OF that i(1)] by (simp add: len in_bin)
  have "for_loop [0..<?n] ?body (a[i := 0])
      = Inr ((a[i := 0])[i := (a[i := 0]) ! i
           + (\<Sum>c<?n. popcount_step (bn_Wbin L ! ?widx c) (in_bin ! c))])"
    by (rule unit_loop) (use i rng in simp_all)
  then have res: "for_loop [0..<?n] ?body (a[i := 0]) = Inr (a[i := bn_acc L in_bin i])"
    using i by (simp add: bn_acc_def)
  have w0: "vwrite a i 0 = Inr (a[i := 0])" using i by (simp add: vwrite_def)
  have r1: "vread (a[i := bn_acc L in_bin i]) i = Inr (bn_acc L in_bin i)"
    using i by (simp add: vread_def)
  have r2: "vread (bn_Threshold L) i = Inr (bn_Threshold L ! i)"
    using thr by (simp add: vread_def)
  have r3: "vwrite out i v = Inr (out[i := v])" for v
    using i by (simp add: vwrite_def)
  show ?thesis
    unfolding bn_unit_def by (simp only: prod.case w0 bind_res_Inr loop_eq res r1 r2 r3)
qed


lemma float2bipolar_input:
  "length inp \<le> n \<Longrightarrow> float2bipolar inp (replicate n False) = Inr (encode_input n inp)"
  by (simp add: float2bipolar_ok encode_input_def)

lemma length_encode_input: "length inp \<le> n \<Longrightarrow> length (encode_input n inp) = n"
  by (simp add: encode_input_def)

lemma fc_forward_ok:
  assumes wf: "fc_wf L" and inp: "length inp \<le> unat (fc_in_size L)"
    and idx: "index < length (fc_a L)" "index < length (fc_output L)"
  shows "fc_forward_propagation h None L inp index
     = Inr (map (h (map (fc_acc L (encode_input (unat (fc_in_size L)) inp)) [0..<unat (fc_out_size L)]))
              [0..<unat (fc_out_size L)],
            L\<lparr>fc_a := (fc_a L)[index := map (fc_acc L (encode_input (unat (fc_in_size L)) inp))
                                           [0..<unat (fc_out_size L)]],
              fc_output := (fc_output L)[index :=
                 map (h (map (fc_acc L (encode_input (unat (fc_in_size L)) inp)) [0..<unat (fc_out_size L)]))
                   [0..<unat (fc_out_size L)]]\<rparr>)"
proof -
  let ?n = "unat (fc_in_size L)" and ?m = "unat (fc_out_size L)"
  let ?in_bin = "encode_input ?n inp"
  let ?a = "fc_a L ! index" and ?out = "fc_output L ! index"
  let ?a' = "map (fc_acc L ?in_bin) [0..<?m]"
  let ?out' = "map (h ?a') [0..<?m]"
  have small: "\<not> 2 ^ 32 \<le> length inp"
    using inp unat_lt_32 [of "fc_in_size L"] by simp
  have enc: "float2bipolar_uint inp (replicate ?n False) = Inr ?in_bin"
    using small inp by (simp add: float2bipolar_uint_def float2bipolar_input)
  have la: "length ?a = ?m" and lo: "length ?out = ?m"
    using wf idx by (simp_all add: fc_wf_def list_all_length)
  have ra: "vread (fc_a L) index = Inr ?a" and ro: "vread (fc_output L) index = Inr ?out"
    using idx by (simp_all add: vread_def)
  have "for_loop [0..<?m] (fc_unit L ?in_bin) ?a = Inr (map (fc_acc L ?in_bin) [0..<?m] @ drop ?m ?a)"
  proof (rule fill_loop [where N = ?m])
    fix i s assume "i < ?m" "length (s :: vec_t) = ?m"
    then show "fc_unit L ?in_bin i s = Inr (s[i := fc_acc L ?in_bin i])"
      using wf inp by (intro fc_unit_ok) (simp_all add: length_encode_input)
  qed (simp_all add: la)
  then have loop1: "for_loop [0..<?m] (fc_unit L ?in_bin) ?a = Inr ?a'"
    by (simp add: la)
  have "for_loop [0..<?m] (\<lambda>i out. vwrite out i (h ?a' i)) ?out
      = Inr (map (h ?a') [0..<?m] @ drop ?m ?out)"
  proof (rule fill_loop [where N = ?m])
    fix i s assume "i < ?m" "length (s :: vec_t) = ?m"
    then show "vwrite s i (h ?a' i) = Inr (s[i := h ?a' i])"
      by (simp add: vwrite_def)
  qed (simp_all add: lo)
  then have loop2: "for_loop [0..<?m] (\<lambda>i out. vwrite out i (h ?a' i)) ?out = Inr ?out'"
    by (simp add: lo)
  show ?thesis
    unfolding fc_forward_propagation_def
    by (simp only: enc ra ro loop1 loop2 bind_res_Inr Let_def option.case)
qed

lemma bn_forward_software:
  assumes wf: "bn_wf L" and nm: "unat (bn_in_size L) * unat (bn_out_size L) < 2 ^ 32"
    and inp: "length inp \<le> unat (bn_in_size L)"
    and idx: "index < length (bn_a L)" "index < length (bn_output L)"
    and sw: "bn_Offload L = None"
  shows "bn_forward_propagation None L inp index
     = Inr (map (\<lambda>i. if bn_acc L (encode_input (unat (bn_in_size L)) inp) i
                           \<ge> real (unat (bn_Threshold L ! i)) then 1 else - 1)
              [0..<unat (bn_out_size L)],
            L\<lparr>bn_a := (bn_a L)[index := map (bn_acc L (encode_input (unat (bn_in_size L)) inp))
                                           [0..<unat (bn_out_size L)]],
              bn_output := (bn_output L)[index :=
                 map (\<lambda>i. if bn_acc L (encode_input (unat (bn_in_size L)) inp) i
                           \<ge> real (unat (bn_Threshold L ! i)) then 1 else - 1)
                   [0..<unat (bn_out_size L)]]\<rparr>)"
proof -
  let ?n = "unat (bn_in_size L)" and ?m = "unat (bn_out_size L)"
  let ?in_bin = "encode_input ?n inp"
  let ?a = "bn_a L ! index" and ?out = "bn_output L ! index"
  let ?f = "bn_acc L ?in_bin"
  let ?g = "\<lambda>i. if bn_acc L ?in_bin i \<ge> real (unat (bn_Threshold L ! i)) then 1 else - 1 :: real"
  have enc: "float2bipolar inp (replicate ?n False) = Inr ?in_bin"
    using inp by (rule float2bipolar_input)
  have la: "length ?a = ?m" and lo: "length ?out = ?m"
    using wf idx by (simp_all add: bn_wf_def list_all_length)
  have ra: "vread (bn_a L) index = Inr ?a" and ro: "vread (bn_output L) index = Inr ?out"
    using idx by (simp_all add: vread_def)
  have "for_loop [0..<?m] (bn_unit L ?in_bin) (?a, ?out)
      = Inr (map ?f [0..<?m] @ drop ?m ?a, map ?g [0..<?m] @ drop ?m ?out)"
  proof (rule fill_loop2 [where Na = ?m and No = ?m])
    fix i a out assume "i < ?m" "length (a :: vec_t) = ?m" "length (out :: vec_t) = ?m"
    then show "bn_unit L ?in_bin i (a, out) = Inr (a[i := ?f i], out[i := ?g i])"
      using wf nm inp by (intro bn_unit_ok) (simp_all add: length_encode_input)
  qed (simp_all add: la lo)
  then have loop: "for_loop [0..<?m] (bn_unit L ?in_bin) (?a, ?out) = Inr (map ?f [0..<?m], map ?g [0..<?m])"
    by (simp add: la lo)
  show ?thesis
    unfolding bn_forward_propagation_def
    by (simp only: enc ra ro sw loop bind_res_Inr Let_def option.case prod.case)
qed

lemma bn_forward_offload:
  assumes wf: "bn_wf L"
    and inp: "length inp \<le> unat (bn_in_size L)"
    and idx: "index < length (bn_a L)" "index < length (bn_output L)"
    and hook: "bn_Offload L = Some offload"
      "offload (encode_input (unat (bn_in_size L)) inp) (bn_Threshold L) (bn_Wbin L)
         (replicate (unat (bn_out_size L)) False) = (in_bin', thr', wbin', res)"
      "unat (bn_out_size L) \<le> length res"
  shows "bn_forward_propagation None L inp index
     = Inr (map (\<lambda>i. if res ! i then 1 else - 1) [0..<unat (bn_out_size L)],
            L\<lparr>bn_Threshold := thr', bn_Wbin := wbin',
              bn_a := (bn_a L)[index := bn_a L ! index],
              bn_output := (bn_output L)[index :=
                 map (\<lambda>i. if res ! i then 1 else - 1) [0..<unat (bn_out_size L)]]\<rparr>)"
proof -
  let ?n = "unat (bn_in_size L)" and ?m = "unat (bn_out_size L)"
  let ?in_bin = "encode_input ?n inp"
  let ?a = "bn_a L ! index" and ?out = "bn_output L ! index"
  let ?g = "\<lambda>i. if res ! i then 1 else - 1 :: real"
  have enc: "float2bipolar inp (replicate ?n False) = Inr ?in_bin"
    using inp by (rule float2bipolar_input)
  have lo: "length ?out = ?m"
    using wf idx by (simp_all add: bn_wf_def list_all_length)
  have ra: "vread (bn_a L) index = Inr ?a" and ro: "vread (bn_output L) index = Inr ?out"
    using idx by (simp_all add: vread_def)
  have "for_loop [0..<?m] (\<lambda>i out.
           bind_res (vread res i) (\<lambda>r. vwrite out i (if r then 1 else - 1))) ?out
      = Inr (map ?g [0..<?m] @ drop ?m ?out)"
  proof (rule fill_loop [where N = ?m])
    fix i s assume "i < ?m" "length (s :: vec_t) = ?m"
    then show "bind_res (vread res i) (\<lambda>r. vwrite s i (if r then 1 else - 1)) = Inr (s[i := ?g i])"
      using hook(3) by (simp add: vread_def vwrite_def)
  qed (simp_all add: lo)
  then have loop: "for_loop [0..<?m] (\<lambda>i out.
           bind_res (vread res i) (\<lambda>r. vwrite out i (if r then 1 else - 1))) ?out
      = Inr (map ?g [0..<?m])"
    by (simp add: lo)
  show ?thesis
    unfolding bn_forward_propagation_def
    by (simp add: enc ra ro hook(1,2) loop)
qed

lemma fold_step_sum_list:
  "fold (\<lambda>(w, x) acc. acc + f w x) ps (a :: 'a::ring_1) = a + sum_list (map (\<lambda>(w, x). f w x) ps)"
  by (induction ps arbitrary: a) (auto simp: algebra_simps)

lemma sum_upt_pairs:
  "(\<Sum>c<n. f (w c) (x c) :: 'a::ring_1)
     = sum_list (map (\<lambda>(w, x). f w x) (map (\<lambda>c. (w c, x c)) [0..<n]))"
proof -
  have "sum_list (map (\<lambda>c. f (w c) (x c)) [0..<n]) = (\<Sum>c<n. f (w c) (x c))"
    by (simp add: interv_sum_list_conv_sum_set_nat lessThan_atLeast0)
  then show ?thesis by (simp add: comp_def)
qed

lemma fc_acc_signed:
  "fc_acc L in_bin i
     = acc_signed (map (\<lambda>c. (fc_Wbin L ! (c * unat (fc_out_size L) + i), in_bin ! c))
                     [0..<unat (fc_in_size L)])"
  unfolding fc_acc_def acc_signed_def fold_step_sum_list
  by (simp add: sum_upt_pairs [where f = signed_step])

lemma bn_acc_popcount:
  "bn_acc L in_bin i
     = acc_popcount (map (\<lambda>c. (bn_Wbin L ! (c * unat (bn_out_size L) + i), in_bin ! c))
                       [0..<unat (bn_in_size L)])"
  unfolding bn_acc_def acc_popcount_def fold_step_sum_list
  by (simp add: sum_upt_pairs [where f = popcount_step])

text \<open>Claim C2 as stated fails for the binarized fully-connected layer: its output
  is the activation \<open>h_.f(a, i)\<close> of the template parameter applied to the signed
  accumulators. With the identity activation (\<open>f(v, i) = v[i]\<close>), weights
  \<open>[false, false]\<close> and input \<open>[-1, -1]\<close> both pairs match and the output is \<open>[2]\<close>.\<close>

theorem forward_output_range_counterexample:
  "fc_forward_propagation (\<lambda>a i. a ! i) None fc_example [- 1, - 1] 0
     = Inr ([2], fc_example\<lparr>fc_a := [[2]], fc_output := [[2]]\<rparr>)
   \<and> (2 :: real) \<noteq> 1 \<and> (2 :: real) \<noteq> - 1"
  by (simp add: fc_forward_propagation_def float2bipolar_uint_def float2bipolar_def
      fc_unit_def vread_def vwrite_def signed_step_def fc_example_def upt_rec)

text \<open>Claim C2, amended. For a binarynet layer that is the last layer (\<open>next_\<close> null),
  an input of at most \<open>in_size\<close> elements and a valid worker index,
  \<open>forward_propagation\<close> returns a vector of \<open>out_size\<close> elements, each \<open>+1\<close> or
  \<open>-1\<close>, whatever the weight bits and thresholds: with the software kernel, and with an
  offload hook that leaves at least \<open>out_size\<close> result bits. For the binarized
  fully-connected layer under the same conditions it returns \<open>out_size\<close> elements,
  element \<open>i\<close> being the activation \<open>h\<close> applied to the vector of signed accumulators at
  \<open>i\<close>; these lie in \<open>{-1, +1}\<close> when the activation takes no other value.\<close>

theorem forward_output_range:
  "(bn_wf L2 \<and> unat (bn_in_size L2) * unat (bn_out_size L2) < 2 ^ 32
      \<and> length inp2 \<le> unat (bn_in_size L2)
      \<and> index2 < length (bn_a L2) \<and> index2 < length (bn_output L2)
      \<and> bn_Offload L2 = None \<longrightarrow>
     (\<exists>v L'. bn_forward_propagation None L2 inp2 index2 = Inr (v, L')
        \<and> length v = unat (bn_out_size L2)
        \<and> (\<forall>i < length v. v ! i = 1 \<or> v ! i = - 1)))
   \<and> (bn_wf L3 \<and> length inp3 \<le> unat (bn_in_size L3)
      \<and> index3 < length (bn_a L3) \<and> index3 < length (bn_output L3)
      \<and> bn_Offload L3 = Some offload
      \<and> unat (bn_out_size L3)
           \<le> length (snd (snd (snd (offload (encode_input (unat (bn_in_size L3)) inp3)
                  (bn_Threshold L3) (bn_Wbin L3) (replicate (unat (bn_out_size L3)) False))))) \<longrightarrow>
     (\<exists>v L'. bn_forward_propagation None L3 inp3 index3 = Inr (v, L')
        \<and> length v = unat (bn_out_size L3)
        \<and> (\<forall>i < length v. v ! i = 1 \<or> v ! i = - 1)))
   \<and> (fc_wf L1 \<and> length inp1 \<le> unat (fc_in_size L1)
      \<and> index1 < length (fc_a L1) \<and> index1 < length (fc_output L1) \<longrightarrow>
     (\<exists>v L'. fc_forward_propagation h None L1 inp1 index1 = Inr (v, L')
        \<and> length v = unat (fc_out_size L1)
        \<and> fc_a L' ! index1
            = map (fc_acc L1 (encode_input (unat (fc_in_size L1)) inp1)) [0..<unat (fc_out_size L1)]
        \<and> (\<forall>i < length v. v ! i = h (fc_a L' ! index1) i)
        \<and> ((\<forall>a i. h a i = 1 \<or> h a i = - 1) \<longrightarrow> (\<forall>i < length v. v ! i = 1 \<or> v ! i = - 1))))"
proof (intro conjI impI)
  assume a: "bn_wf L2 \<and> unat (bn_in_size L2) * unat (bn_out_size L2) < 2 ^ 32
      \<and> length inp2 \<le> unat (bn_in_size L2)
      \<and> index2 < length (bn_a L2) \<and> index2 < length (bn_output L2)
      \<and> bn_Offload L2 = None"
  then have "bn_forward_propagation None L2 inp2 index2
     = Inr (map (\<lambda>i. if bn_acc L2 (encode_input (unat (bn_in_size L2)) inp2) i
                           \<ge> real (unat (bn_Threshold L2 ! i)) then 1 else - 1)
              [0..<unat (bn_out_size L2)],
            L2\<lparr>bn_a := (bn_a L2)[index2 := map (bn_acc L2 (encode_input (unat (bn_in_size L2)) inp2))
                                           [0..<unat (bn_out_size L2)]],
              bn_output := (bn_output L2)[index2 :=
                 map (\<lambda>i. if bn_acc L2 (encode_input (unat (bn_in_size L2)) inp2) i
                           \<ge> real (unat (bn_Threshold L2 ! i)) then 1 else - 1)
                   [0..<unat (bn_out_size L2)]]\<rparr>)"
    by (intro bn_forward_software) simp_all
  then show "\<exists>v L'. bn_forward_propagation None L2 inp2 index2 = Inr (v, L')
        \<and> length v = unat (bn_out_size L2)
        \<and> (\<forall>i < length v. v ! i = 1 \<or> v ! i = - 1)"
    by simp
next
  let ?r = "offload (encode_input (unat (bn_in_size L3)) inp3)
                  (bn_Threshold L3) (bn_Wbin L3) (replicate (unat (bn_out_size L3)) False)"
  assume a: "bn_wf L3 \<and> length inp3 \<le> unat (bn_in_size L3)
      \<and> index3 < length (bn_a L3) \<and> index3 < length (bn_output L3)
      \<and> bn_Offload L3 = Some offload
      \<and> unat (bn_out_size L3) \<le> length (snd (snd (snd ?r)))"
  obtain in_bin' thr' wbin' res where r: "?r = (in_bin', thr', wbin', res)"
    by (cases ?r) auto
  with a have len: "unat (bn_out_size L3) \<le> length res" by simp
  from a have h: "bn_wf L3" "length inp3 \<le> unat (bn_in_size L3)"
    "index3 < length (bn_a L3)" "index3 < length (bn_output L3)" "bn_Offload L3 = Some offload"
    by simp_all
  have "bn_forward_propagation None L3 inp3 index3
     = Inr (map (\<lambda>i. if res ! i then 1 else - 1) [0..<unat (bn_out_size L3)],
            L3\<lparr>bn_Threshold := thr', bn_Wbin := wbin',
              bn_a := (bn_a L3)[index3 := bn_a L3 ! index3],
              bn_output := (bn_output L3)[index3 :=
                 map (\<lambda>i. if res ! i then 1 else - 1) [0..<unat (bn_out_size L3)]]\<rparr>)"
    by (rule bn_forward_offload [OF h r len])
  then show "\<exists>v L'. bn_forward_propagation None L3 inp3 index3 = Inr (v, L')
        \<and> length v = unat (bn_out_size L3)
        \<and> (\<forall>i < length v. v ! i = 1 \<or> v ! i = - 1)"
    by simp
next
  assume a: "fc_wf L1 \<and> length inp1 \<le> unat (fc_in_size L1)
      \<and> index1 < length (fc_a L1) \<and> index1 < length (fc_output L1)"
  let ?a' = "map (fc_acc L1 (encode_input (unat (fc_in_size L1)) inp1)) [0..<unat (fc_out_size L1)]"
  from a have "fc_forward_propagation h None L1 inp1 index1
     = Inr (map (h ?a') [0..<unat (fc_out_size L1)],
            L1\<lparr>fc_a := (fc_a L1)[index1 := ?a'],
              fc_output := (fc_output L1)[index1 := map (h ?a') [0..<unat (fc_out_size L1)]]\<rparr>)"
    by (intro fc_forward_ok) simp_all
  with a show "\<exists>v L'. fc_forward_propagation h None L1 inp1 index1 = Inr (v, L')
        \<and> length v = unat (fc_out_size L1)
        \<and> fc_a L' ! index1 = ?a'
        \<and> (\<forall>i < length v. v ! i = h (fc_a L' ! index1) i)
        \<and> ((\<forall>a i. h a i = 1 \<or> h a i = - 1) \<longrightarrow> (\<forall>i < length v. v ! i = 1 \<or> v ! i = - 1))"
    by simp
qed


theorem forward_output_range_witness:
  "bn_wf bn_example \<and> unat (bn_in_size bn_example) * unat (bn_out_size bn_example) < 2 ^ 32
   \<and> length [1, - 1, 1, 1 :: real] \<le> unat (bn_in_size bn_example)
   \<and> 0 < length (bn_a bn_example) \<and> 0 < length (bn_output bn_example)
   \<and> bn_Offload bn_example = None
   \<and> bn_forward_propagation None bn_example [1, - 1, 1, 1] 0
       = Inr ([1], bn_example\<lparr>bn_a := [[4]], bn_output := [[1]]\<rparr>)
   \<and> bn_wf (bn_example\<lparr>bn_Offload := Some (\<lambda>i t w r. (i, t, w, [False]))\<rparr>)
   \<and> bn_forward_propagation None
         (bn_example\<lparr>bn_Offload := Some (\<lambda>i t w r. (i, t, w, [False]))\<rparr>) [1, - 1, 1, 1] 0
       = Inr ([- 1], bn_example\<lparr>bn_Offload := Some (\<lambda>i t w r. (i, t, w, [False])),
                                   bn_output := [[- 1]]\<rparr>)
   \<and> fc_wf fc_example \<and> length [- 1, 1 :: real] \<le> unat (fc_in_size fc_example)
   \<and> 0 < length (fc_a fc_example) \<and> 0 < length (fc_output fc_example)
   \<and> fc_forward_propagation (\<lambda>a i. if a ! i \<ge> 0 then 1 else - 1) None fc_example [- 1, 1] 0
       = Inr ([1], fc_example\<lparr>fc_a := [[0]], fc_output := [[1]]\<rparr>)"
  using forward_output_range [of bn_example "[1, - 1, 1, 1]" 0
      "bn_example\<lparr>bn_Offload := Some (\<lambda>i t w r. (i, t, w, [False]))\<rparr>" "[1, - 1, 1, 1]" 0
      "\<lambda>i t w r. (i, t, w, [False])" fc_example "[- 1, 1]" 0 "\<lambda>a i. if a ! i \<ge> 0 then 1 else - 1"]
  by (simp add: bn_forward_propagation_def fc_forward_propagation_def float2bipolar_uint_def
      float2bipolar_def bn_unit_def fc_unit_def vread_def vwrite_def signed_step_def
      popcount_step_def bn_wf_def fc_wf_def fc_connection_size_def bn_example_def fc_example_def
      upt_rec)

subsection \<open>Forward propagation of the convolution\<close>

lemma sum_loop:
  fixes d :: "nat \<Rightarrow> int"
  assumes body: "\<And>i acc. i < n \<Longrightarrow> \<bar>acc\<bar> \<le> int (b + i * c) \<Longrightarrow> body i acc = Inr (acc + d i)"
    and d: "\<And>i. i < n \<Longrightarrow> \<bar>d i\<bar> \<le> int c"
    and a0: "\<bar>a0\<bar> \<le> int b"
  shows "for_loop [0..<n] body a0 = Inr (a0 + (\<Sum>i<n. d i)) \<and> \<bar>\<Sum>i<n. d i\<bar> \<le> int (n * c)"
  using body d
proof (induction n)
  case 0
  show ?case by simp
next
  case (Suc n)
  have body': "body i acc = Inr (acc + d i)" if "i < n" "\<bar>acc\<bar> \<le> int (b + i * c)" for i acc
    using that by (intro Suc.prems(1)) simp_all
  have d': "\<bar>d i\<bar> \<le> int c" if "i < n" for i
    using that by (intro Suc.prems(2)) simp
  from Suc.IH [OF body' d']
  have IH: "for_loop [0..<n] body a0 = Inr (a0 + (\<Sum>i<n. d i))"
    and bound: "\<bar>\<Sum>i<n. d i\<bar> \<le> int (n * c)"
    by simp_all
  have dn: "\<bar>d n\<bar> \<le> int c" by (intro Suc.prems(2)) simp
  have "\<bar>a0 + (\<Sum>i<n. d i)\<bar> \<le> int (b + n * c)"
    using a0 bound by simp
  then have step: "body n (a0 + (\<Sum>i<n. d i)) = Inr (a0 + (\<Sum>i<n. d i) + d n)"
    by (intro Suc.prems(1)) simp
  have "for_loop [0..<Suc n] body a0 = bind_res (for_loop [0..<n] body a0) (body n)"
    by (rule for_loop_Suc)
  also have "\<dots> = Inr (a0 + (\<Sum>i<n. d i) + d n)"
    by (simp only: IH bind_res_Inr step)
  finally have run: "for_loop [0..<Suc n] body a0 = Inr (a0 + (\<Sum>i<Suc n. d i))"
    by (simp add: add.assoc)
  have "\<bar>\<Sum>i<Suc n. d i\<bar> \<le> int (Suc n * c)"
    using bound dn by simp
  with run show ?case by simp
qed

lemma match_rule_bound: "\<bar>match_rule L w x\<bar> \<le> 1"
  by (simp add: match_rule_def popcount_step_def signed_step_def)

lemma lin_bound: "a < n \<Longrightarrow> r < m \<Longrightarrow> a * m + r < n * (m :: nat)"
proof -
  assume a: "a < n" and r: "r < m"
  have "Suc a * m \<le> n * m" using a by (intro mult_le_mono1) simp
  moreover have "a * m + r < Suc a * m" using r by simp
  ultimately show ?thesis by linarith
qed


lemma unat_sum3_64:
  assumes "a < 2 ^ 32" "b < 2 ^ 32" "c < 2 ^ 32"
  shows "unat (ucast (of_nat a :: 32 word) + ucast (of_nat b :: 32 word)
               + ucast (of_nat c :: 32 word) :: 64 word) = a + b + c"
proof -
  have small: "unat (of_nat n :: 64 word) = n" if "n < 2 ^ 64" for n
    using that by (simp add: unat_of_nat)
  have "a + b + c < 2 ^ 64" using assms by simp
  then have "unat (of_nat (a + b + c) :: 64 word) = a + b + c"
    by (rule small)
  then have "unat (of_nat a + of_nat b + of_nat c :: 64 word) = a + b + c"
    by (simp only: of_nat_add)
  then show ?thesis
    using assms by (simp only: ucast_of_nat_32_64)
qed

lemma weight_ind_nat:
  fixes L oc ic ky kx
  defines "k \<equiv> unat (conv_window_size L)" and "IC \<equiv> unat (conv_in_channels L)"
    and "OC \<equiv> unat (conv_out_channels L)"
  assumes fits: "OC * IC * k * k < 2 ^ 32"
    and rng: "oc < OC" "ic < IC" "ky < k" "kx < k"
  shows "unat (weight_ind L (of_nat oc) (of_nat ic) (of_nat ky) (of_nat kx))
           = oc * (k * k * IC) + ic * (k * k) + ky * k + kx"
    and "oc * (k * k * IC) + ic * (k * k) + ky * k + kx < OC * IC * k * k"
proof -
  have 1: "ky * k + kx < k * k" using rng(3,4) by (rule lin_bound)
  have "ic * (k * k) + (ky * k + kx) < IC * (k * k)" using rng(2) 1 by (rule lin_bound)
  then have 2: "ic * (k * k) + ky * k + kx < k * k * IC" by (simp add: mult.commute add.assoc)
  have "oc * (k * k * IC) + (ic * (k * k) + ky * k + kx) < OC * (k * k * IC)"
    using rng(1) 2 by (rule lin_bound)
  then show 3: "oc * (k * k * IC) + ic * (k * k) + ky * k + kx < OC * IC * k * k"
    by (simp add: ac_simps)
  let ?a = "oc * (k * k * IC) + k * k * ic" and ?b = "ky * k"
  have a: "?a < 2 ^ 32" and b: "?b < 2 ^ 32" and c: "kx < 2 ^ 32"
    using 3 fits by (simp_all add: ac_simps)
  have wa: "of_nat oc * (conv_window_size L * conv_window_size L * conv_in_channels L)
            + conv_window_size L * conv_window_size L * of_nat ic = (of_nat ?a :: 32 word)"
    by (simp add: k_def IC_def)
  have wb: "of_nat ky * conv_window_size L = (of_nat ?b :: 32 word)"
    by (simp add: k_def)
  show "unat (weight_ind L (of_nat oc) (of_nat ic) (of_nat ky) (of_nat kx))
           = oc * (k * k * IC) + ic * (k * k) + ky * k + kx"
    unfolding weight_ind_def weight_base_def wa wb
    using unat_sum3_64 [OF a b c] by (simp add: ac_simps)
qed

lemma output_ind_nat:
  fixes L oc oy ox
  defines "OW \<equiv> unat (conv_out_width L)" and "OH \<equiv> unat (conv_out_height L)"
    and "OC \<equiv> unat (conv_out_channels L)"
  assumes fits: "OC * OH * OW < 2 ^ 32"
    and rng: "oc < OC" "oy < OH" "ox < OW"
  shows "unat (output_ind L (of_nat oc) (of_nat oy) (of_nat ox)) = oc * OH * OW + oy * OW + ox"
    and "oc * OH * OW + oy * OW + ox < OC * OH * OW"
proof -
  have 1: "oy * OW + ox < OH * OW" using rng(2,3) by (rule lin_bound)
  have "oc * (OH * OW) + (oy * OW + ox) < OC * (OH * OW)" using rng(1) 1 by (rule lin_bound)
  then show 3: "oc * OH * OW + oy * OW + ox < OC * OH * OW"
    by (simp add: ac_simps)
  let ?a = "oc * OH * OW" and ?b = "oy * OW"
  have a: "?a < 2 ^ 32" and b: "?b < 2 ^ 32" and c: "ox < 2 ^ 32"
    using 3 fits by simp_all
  have wa: "of_nat oc * conv_out_height L * conv_out_width L = (of_nat ?a :: 32 word)"
    by (simp add: OW_def OH_def)
  have wb: "of_nat oy * conv_out_width L = (of_nat ?b :: 32 word)"
    by (simp add: OW_def)
  show "unat (output_ind L (of_nat oc) (of_nat oy) (of_nat ox)) = oc * OH * OW + oy * OW + ox"
    unfolding output_ind_def output_base_def wa wb
    using unat_sum3_64 [OF a b c] by simp
qed

lemma input_ind_nat:
  fixes L ic oy ox ky kx
  defines "W \<equiv> unat (conv_in_width L)" and "H \<equiv> unat (conv_in_height L)"
    and "IC \<equiv> unat (conv_in_channels L)"
  assumes fits: "IC * W * H < 2 ^ 32"
    and rng: "ic < IC" "oy + ky < H" "ox + kx < W"
  shows "unat (input_ind L (of_nat ic) (of_nat oy) (of_nat ox) (of_nat ky) (of_nat kx))
           = ic * (W * H) + oy * W + ox + ky * W + kx"
    and "ic * (W * H) + oy * W + ox + ky * W + kx < IC * W * H"
proof -
  have 1: "(oy + ky) * W + (ox + kx) < H * W" using rng(2,3) by (rule lin_bound)
  have "ic * (H * W) + ((oy + ky) * W + (ox + kx)) < IC * (H * W)" using rng(1) 1 by (rule lin_bound)
  then show 3: "ic * (W * H) + oy * W + ox + ky * W + kx < IC * W * H"
    by (simp add: algebra_simps)
  let ?a = "ic * (W * H) + oy * W + ox" and ?b = "ky * W"
  have a: "?a < 2 ^ 32" and b: "?b < 2 ^ 32" and c: "kx < 2 ^ 32"
    using 3 fits by simp_all
  have wa: "of_nat ic * (conv_in_width L * conv_in_height L) + of_nat oy * conv_in_width L + of_nat ox
            = (of_nat ?a :: 32 word)"
    by (simp add: W_def H_def)
  have wb: "of_nat ky * conv_in_width L = (of_nat ?b :: 32 word)"
    by (simp add: W_def)
  show "unat (input_ind L (of_nat ic) (of_nat oy) (of_nat ox) (of_nat ky) (of_nat kx))
           = ic * (W * H) + oy * W + ox + ky * W + kx"
    unfolding input_ind_def input_base_def wa wb
    using unat_sum3_64 [OF a b c] by simp
qed


lemma int_add_ok: "\<bar>acc\<bar> + 1 < 2 ^ 31 \<Longrightarrow> \<bar>d\<bar> \<le> 1 \<Longrightarrow> int_add acc d = Inr (acc + d)"
  by (simp add: int_add_def in_int_range_def) arith

lemma conv_acc_ok:
  fixes L in_bin oc oy ox
  defines "k \<equiv> unat (conv_window_size L)" and "IC \<equiv> unat (conv_in_channels L)"
    and "OC \<equiv> unat (conv_out_channels L)"
    and "W \<equiv> unat (conv_in_width L)" and "H \<equiv> unat (conv_in_height L)"
  assumes fits: "OC * IC * k * k < 2 ^ 32" "IC * W * H < 2 ^ 32" "IC * k * k < 2 ^ 31"
    and lens: "length (conv_Wbin L) = OC * IC * k * k" "IC * W * H \<le> length in_bin"
    and rng: "oc < OC" "oy + k \<le> H" "ox + k \<le> W"
  shows "conv_acc L in_bin oc oy ox = Inr (conv_sum L in_bin oc oy ox)"
proof -
  let ?m = "\<lambda>ic ky kx. match_rule L
             (conv_Wbin L ! (oc * (k * k * IC) + ic * (k * k) + ky * k + kx))
             (in_bin ! (ic * (W * H) + oy * W + ox + ky * W + kx))"
  let ?kx_body = "\<lambda>ic ky kx acc.
           bind_res (vread (conv_Wbin L)
                       (unat (weight_ind L (of_nat oc) (of_nat ic) (of_nat ky) (of_nat kx)))) (\<lambda>w.
           bind_res (vread in_bin
                       (unat (input_ind L (of_nat ic) (of_nat oy) (of_nat ox) (of_nat ky) (of_nat kx)))) (\<lambda>x.
             int_add acc (match_rule L w x)))"
  have step: "?kx_body ic ky kx acc = Inr (acc + ?m ic ky kx)"
    if "ic < IC" "ky < k" "kx < k" "\<bar>acc\<bar> + 1 < 2 ^ 31" for ic ky kx acc
  proof -
    have w: "unat (weight_ind L (of_nat oc) (of_nat ic) (of_nat ky) (of_nat kx))
           = oc * (k * k * IC) + ic * (k * k) + ky * k + kx"
      and wb: "oc * (k * k * IC) + ic * (k * k) + ky * k + kx < OC * IC * k * k"
      using weight_ind_nat [of L oc ic ky kx] fits(1) rng(1) that(1-3)
      by (simp_all add: k_def IC_def OC_def)
    have "oy + ky < H" "ox + kx < W" using rng(2,3) that(2,3) by simp_all
    then have i: "unat (input_ind L (of_nat ic) (of_nat oy) (of_nat ox) (of_nat ky) (of_nat kx))
           = ic * (W * H) + oy * W + ox + ky * W + kx"
      and ib: "ic * (W * H) + oy * W + ox + ky * W + kx < IC * W * H"
      using input_ind_nat [of L ic oy ky ox kx] fits(2) that(1)
      by (simp_all add: W_def H_def IC_def)
    have r1: "vread (conv_Wbin L) (oc * (k * k * IC) + ic * (k * k) + ky * k + kx)
        = Inr (conv_Wbin L ! (oc * (k * k * IC) + ic * (k * k) + ky * k + kx))"
      using wb lens(1) by (simp add: vread_def)
    have r2: "vread in_bin (ic * (W * H) + oy * W + ox + ky * W + kx)
        = Inr (in_bin ! (ic * (W * H) + oy * W + ox + ky * W + kx))"
      using ib lens(2) by (simp add: vread_def)
    show ?thesis
      by (simp only: w i r1 r2 bind_res_Inr int_add_ok [OF that(4) match_rule_bound])
  qed
  have kx_loop: "for_loop [0..<k] (?kx_body ic ky) a0 = Inr (a0 + (\<Sum>kx<k. ?m ic ky kx))
       \<and> \<bar>\<Sum>kx<k. ?m ic ky kx\<bar> \<le> int (k * 1)"
    if "ic < IC" "ky < k" "\<bar>a0\<bar> \<le> int b" "b + k < 2 ^ 31" for ic ky a0 b
  proof (rule sum_loop [where b = b and c = 1])
    fix kx acc assume "kx < k" "\<bar>acc\<bar> \<le> int (b + kx * 1)"
    then have "\<bar>acc\<bar> + 1 < 2 ^ 31" using that(4) by simp
    with that(1,2) \<open>kx < k\<close> show "?kx_body ic ky kx acc = Inr (acc + ?m ic ky kx)"
      by (rule step)
  next
    fix kx show "\<bar>?m ic ky kx\<bar> \<le> int 1" using match_rule_bound by simp
  next
    show "\<bar>a0\<bar> \<le> int b" by (rule that(3))
  qed
  have ky_loop: "for_loop [0..<k] (\<lambda>ky. for_loop [0..<k] (?kx_body ic ky)) a0
         = Inr (a0 + (\<Sum>ky<k. \<Sum>kx<k. ?m ic ky kx))
       \<and> \<bar>\<Sum>ky<k. \<Sum>kx<k. ?m ic ky kx\<bar> \<le> int (k * k)"
    if "ic < IC" "\<bar>a0\<bar> \<le> int b" "b + k * k < 2 ^ 31" for ic a0 b
  proof (rule sum_loop [where b = b and c = k])
    fix ky acc assume ky: "ky < k" and acc: "\<bar>acc\<bar> \<le> int (b + ky * k)"
    have "Suc ky * k \<le> k * k" using ky by (intro mult_le_mono1) simp
    then have "ky * k + k \<le> k * k" by simp
    then have "b + ky * k + k < 2 ^ 31" using that(3) by simp
    with kx_loop [OF that(1) ky acc]
    show "for_loop [0..<k] (?kx_body ic ky) acc = Inr (acc + (\<Sum>kx<k. ?m ic ky kx))"
      by simp
  next
    fix ky assume ky: "ky < k"
    have "\<bar>(0::int)\<bar> \<le> int 0" by simp
    moreover have "k \<le> k * k" using ky by (cases k) simp_all
    then have "0 + k < (2::nat) ^ 31" using that(3) by linarith
    moreover note this
    ultimately show "\<bar>\<Sum>kx<k. ?m ic ky kx\<bar> \<le> int k"
      using kx_loop [OF that(1) ky, of 0 0] by simp
  next
    show "\<bar>a0\<bar> \<le> int b" by (rule that(2))
  qed
  have "for_loop [0..<IC] (\<lambda>ic. for_loop [0..<k] (\<lambda>ky. for_loop [0..<k] (?kx_body ic ky))) 0
         = Inr (0 + (\<Sum>ic<IC. \<Sum>ky<k. \<Sum>kx<k. ?m ic ky kx))
       \<and> \<bar>\<Sum>ic<IC. \<Sum>ky<k. \<Sum>kx<k. ?m ic ky kx\<bar> \<le> int (IC * (k * k))"
  proof (rule sum_loop [where b = 0 and c = "k * k"])
    fix ic acc assume ic: "ic < IC" and acc: "\<bar>acc\<bar> \<le> int (0 + ic * (k * k))"
    have "Suc ic * (k * k) \<le> IC * (k * k)" using ic by (intro mult_le_mono1) simp
    then have "ic * (k * k) + k * k \<le> IC * (k * k)" by simp
    then have "0 + ic * (k * k) + k * k < 2 ^ 31" using fits(3) by (simp add: mult.assoc)
    with ky_loop [OF ic acc]
    show "for_loop [0..<k] (\<lambda>ky. for_loop [0..<k] (?kx_body ic ky)) acc
        = Inr (acc + (\<Sum>ky<k. \<Sum>kx<k. ?m ic ky kx))"
      by simp
  next
    fix ic assume ic: "ic < IC"
    have "k * k \<le> IC * (k * k)" using ic by (cases IC) simp_all
    moreover have "IC * (k * k) < 2 ^ 31" using fits(3) by (simp add: mult.assoc)
    ultimately have "0 + k * k < (2::nat) ^ 31" by linarith
    then show "\<bar>\<Sum>ky<k. \<Sum>kx<k. ?m ic ky kx\<bar> \<le> int (k * k)"
      using ky_loop [OF ic, of 0 0] by simp
  next
    show "\<bar>(0::int)\<bar> \<le> int 0" by simp
  qed
  then show ?thesis
    by (simp add: conv_acc_def conv_sum_def Let_def k_def IC_def W_def H_def)
qed

lemma length_concat_blocks:
  "(\<And>i. i < n \<Longrightarrow> length (seg i) = m) \<Longrightarrow> length (concat (map seg [0..<n])) = n * m"
  by (induction n) simp_all

lemma nth_concat_blocks:
  assumes "\<And>i. i < n \<Longrightarrow> length (seg i) = m" "i < n" "j < m"
  shows "concat (map seg [0..<n]) ! (i * m + j) = seg i ! j"
  using assms
proof (induction n)
  case 0
  then show ?case by simp
next
  case (Suc n)
  have seg: "length (seg i) = m" if "i < n" for i
    using that by (intro Suc.prems(1)) simp
  have len: "length (concat (map seg [0..<n])) = n * m"
    using seg by (rule length_concat_blocks)
  show ?case
  proof (cases "i < n")
    case True
    then have "i * m + j < n * m" using Suc.prems(3) by (rule lin_bound)
    then show ?thesis
      using Suc.IH [OF seg True Suc.prems(3)] by (simp add: nth_append len)
  next
    case False
    then have "i = n" using Suc.prems(2) by simp
    then show ?thesis by (simp add: nth_append len)
  qed
qed

lemma seg_loop:
  assumes body: "\<And>i s. i < n \<Longrightarrow> length s = N \<Longrightarrow>
                   body i s = Inr (take (b + i * m) s @ seg i @ drop (b + i * m + m) s)"
    and seg: "\<And>i. i < n \<Longrightarrow> length (seg i) = m"
    and fit: "b + n * m \<le> N" and len: "length s = N"
  shows "for_loop [0..<n] body s = Inr (take b s @ concat (map seg [0..<n]) @ drop (b + n * m) s)"
  using body seg fit
proof (induction n)
  case 0
  show ?case by simp
next
  case (Suc n)
  have body': "body i s = Inr (take (b + i * m) s @ seg i @ drop (b + i * m + m) s)"
    if "i < n" "length s = N" for i s
    using that by (intro Suc.prems(1)) simp_all
  have seg': "length (seg i) = m" if "i < n" for i
    using that by (intro Suc.prems(2)) simp
  have fit': "b + n * m \<le> N" and fit1: "b + n * m + m \<le> N"
    using Suc.prems(3) by simp_all
  let ?C = "concat (map seg [0..<n])"
  let ?mid = "take b s @ ?C @ drop (b + n * m) s"
  have IH: "for_loop [0..<n] body s = Inr ?mid"
    using body' seg' fit' by (rule Suc.IH)
  have lenC: "length ?C = n * m" using seg' by (rule length_concat_blocks)
  have lb: "length (take b s) = b" using fit' len by simp
  have lmid: "length ?mid = N" using fit' len lenC by simp
  have tk: "take (b + n * m) ?mid = take b s @ ?C"
    using lb lenC by simp
  have dr: "drop (b + n * m + m) ?mid = drop (b + n * m + m) s"
    using lb lenC by (simp add: add.commute)
  have "for_loop [0..<Suc n] body s = bind_res (for_loop [0..<n] body s) (body n)"
    by (rule for_loop_Suc)
  also have "\<dots> = body n ?mid" by (simp only: IH bind_res_Inr)
  also have "\<dots> = Inr (take (b + n * m) ?mid @ seg n @ drop (b + n * m + m) ?mid)"
    using lmid by (intro Suc.prems(1)) simp_all
  also have "\<dots> = Inr (take b s @ concat (map seg [0..<Suc n]) @ drop (b + Suc n * m) s)"
    by (simp only: tk dr) (simp add: add.commute add.left_commute)
  finally show ?case .
qed

lemma conv_kernel_ok:
  fixes L in_bin out
  defines "k \<equiv> unat (conv_window_size L)" and "IC \<equiv> unat (conv_in_channels L)"
    and "OC \<equiv> unat (conv_out_channels L)"
    and "W \<equiv> unat (conv_in_width L)" and "H \<equiv> unat (conv_in_height L)"
    and "OW \<equiv> unat (conv_out_width L)" and "OH \<equiv> unat (conv_out_height L)"
  assumes geo: "OW + k = W + 1" "OH + k = H + 1"
    and fits: "OC * IC * k * k < 2 ^ 32" "IC * W * H < 2 ^ 32" "IC * k * k < 2 ^ 31"
      "OC * OH * OW < 2 ^ 32"
    and lens: "length (conv_Wbin L) = OC * IC * k * k" "IC * W * H \<le> length in_bin"
      "OC * OH * OW \<le> length out"
  shows "conv_kernel L in_bin out
     = Inr (concat (map (\<lambda>oc. concat (map (\<lambda>oy.
               map (\<lambda>ox. real_of_int (conv_sum L in_bin oc oy ox)) [0..<OW]) [0..<OH])) [0..<OC])
            @ drop (OC * OH * OW) out)"
proof -
  let ?N = "length out"
  let ?V = "\<lambda>oc oy ox. real_of_int (conv_sum L in_bin oc oy ox)"
  let ?row = "\<lambda>oc oy. map (?V oc oy) [0..<OW]"
  let ?block = "\<lambda>oc. concat (map (?row oc) [0..<OH])"
  let ?ox_body = "\<lambda>oc oy ox out.
           bind_res (conv_acc L in_bin oc oy ox) (\<lambda>acc.
             vwrite out (unat (output_ind L (of_nat oc) (of_nat oy) (of_nat ox))) (real_of_int acc))"
  have lrow: "length (?row oc oy) = OW" for oc oy by simp
  have lblock: "length (?block oc) = OH * OW" for oc
    by (rule length_concat_blocks) simp
  have cell: "?ox_body oc oy ox s
      = Inr (take (oc * OH * OW + oy * OW + ox * 1) s @ [?V oc oy ox]
             @ drop (oc * OH * OW + oy * OW + ox * 1 + 1) s)"
    if "oc < OC" "oy < OH" "ox < OW" "length s = ?N" for oc oy ox and s :: vec_t
  proof -
    have "oy + k \<le> H" "ox + k \<le> W" using that(2,3) geo by simp_all
    then have acc: "conv_acc L in_bin oc oy ox = Inr (conv_sum L in_bin oc oy ox)"
      unfolding k_def IC_def OC_def W_def H_def
      using fits(1-3) lens(1,2) that(1)
      by (intro conv_acc_ok) (simp_all add: k_def IC_def OC_def W_def H_def)
    have o: "unat (output_ind L (of_nat oc) (of_nat oy) (of_nat ox)) = oc * OH * OW + oy * OW + ox"
      and ob: "oc * OH * OW + oy * OW + ox < OC * OH * OW"
      using output_ind_nat [of L oc oy ox] fits(4) that(1-3)
      by (simp_all add: OW_def OH_def OC_def)
    have "oc * OH * OW + oy * OW + ox < length s" using ob lens(3) that(4) by simp
    then have "vwrite s (oc * OH * OW + oy * OW + ox) v
        = Inr (take (oc * OH * OW + oy * OW + ox) s @ [v] @ drop (oc * OH * OW + oy * OW + ox + 1) s)" for v
      by (simp add: vwrite_def upd_conv_take_nth_drop)
    then show ?thesis
      by (simp only: acc o bind_res_Inr mult_1_right)
  qed
  have row: "for_loop [0..<OW] (?ox_body oc oy) s
      = Inr (take (oc * OH * OW + oy * OW) s @ ?row oc oy @ drop (oc * OH * OW + oy * OW + OW) s)"
    if "oc < OC" "oy < OH" "length s = ?N" for oc oy and s :: vec_t
  proof -
    have "Suc oy * OW \<le> OH * OW" using that(2) by (intro mult_le_mono1) simp
    moreover have "Suc oc * (OH * OW) \<le> OC * (OH * OW)" using that(1) by (intro mult_le_mono1) simp
    ultimately have fit: "oc * OH * OW + oy * OW + OW * 1 \<le> ?N"
      using lens(3) by (simp add: mult.assoc)
    have "for_loop [0..<OW] (?ox_body oc oy) s
      = Inr (take (oc * OH * OW + oy * OW) s @ concat (map (\<lambda>ox. [?V oc oy ox]) [0..<OW])
             @ drop (oc * OH * OW + oy * OW + OW * 1) s)"
    proof (rule seg_loop [where N = ?N and m = 1])
      fix ox and s :: vec_t assume "ox < OW" "length s = ?N"
      with that(1,2) show "?ox_body oc oy ox s
          = Inr (take (oc * OH * OW + oy * OW + ox * 1) s @ [?V oc oy ox]
                 @ drop (oc * OH * OW + oy * OW + ox * 1 + 1) s)"
        by (rule cell)
    qed (use fit that(3) in simp_all)
    then show ?thesis by (simp add: concat_map_singleton)
  qed
  have block: "for_loop [0..<OH] (\<lambda>oy. for_loop [0..<OW] (?ox_body oc oy)) s
      = Inr (take (0 + oc * (OH * OW)) s @ ?block oc @ drop (0 + oc * (OH * OW) + OH * OW) s)"
    if "oc < OC" "length s = ?N" for oc and s :: vec_t
  proof -
    have "Suc oc * (OH * OW) \<le> OC * (OH * OW)" using that(1) by (intro mult_le_mono1) simp
    then have fit: "oc * OH * OW + OH * OW \<le> ?N"
      using lens(3) by (simp add: mult.assoc)
    have "for_loop [0..<OH] (\<lambda>oy. for_loop [0..<OW] (?ox_body oc oy)) s
      = Inr (take (oc * OH * OW) s @ ?block oc @ drop (oc * OH * OW + OH * OW) s)"
    proof (rule seg_loop [where N = ?N and m = OW])
      fix oy and s :: vec_t assume "oy < OH" "length s = ?N"
      with that(1) show "for_loop [0..<OW] (?ox_body oc oy) s
          = Inr (take (oc * OH * OW + oy * OW) s @ ?row oc oy @ drop (oc * OH * OW + oy * OW + OW) s)"
        by (rule row)
    qed (use fit that(2) in simp_all)
    then show ?thesis by (simp add: mult.assoc)
  qed
  have "for_loop [0..<OC] (\<lambda>oc. for_loop [0..<OH] (\<lambda>oy. for_loop [0..<OW] (?ox_body oc oy))) out
      = Inr (take 0 out @ concat (map ?block [0..<OC]) @ drop (0 + OC * (OH * OW)) out)"
  proof (rule seg_loop [where N = ?N and m = "OH * OW"])
    fix oc and s :: vec_t assume "oc < OC" "length s = ?N"
    then show "for_loop [0..<OH] (\<lambda>oy. for_loop [0..<OW] (?ox_body oc oy)) s
      = Inr (take (0 + oc * (OH * OW)) s @ ?block oc @ drop (0 + oc * (OH * OW) + OH * OW) s)"
      by (rule block)
  next
    fix oc show "length (?block oc) = OH * OW" by (rule lblock)
  qed (use lens(3) in \<open>simp_all add: mult.assoc\<close>)
  then show ?thesis
    by (simp add: conv_kernel_def OC_def OH_def OW_def mult.assoc)
qed

lemma unat_mult3_32:
  assumes "unat a * unat b * unat c < 2 ^ 32"
  shows "unat (a * b * c :: 32 word) = unat a * unat b * unat c"
proof (cases "unat c = 0")
  case True
  then have "c = 0" by (simp add: unat_eq_0)
  then show ?thesis by simp
next
  case False
  then have "unat a * unat b < 2 ^ 32"
    using assms nat_mult_less_drop by blast
  then have "unat (a * b) = unat a * unat b" by (rule unat_mult_32)
  then show ?thesis using assms by (simp add: unat_mult_32)
qed

lemma unat_mult4_32:
  assumes "unat a * unat b * unat c * unat d < 2 ^ 32"
  shows "unat (a * b * c * d :: 32 word) = unat a * unat b * unat c * unat d"
proof (cases "unat d = 0")
  case True
  then have "d = 0" by (simp add: unat_eq_0)
  then show ?thesis by simp
next
  case False
  then have "unat a * unat b * unat c < 2 ^ 32"
    using assms nat_mult_less_drop by blast
  then have "unat (a * b * c) = unat a * unat b * unat c" by (rule unat_mult3_32)
  then show ?thesis using assms by (simp add: unat_mult_32)
qed

lemma conv_store_length:
  assumes "conv_wf L"
    and "unat (conv_out_channels L) * unat (conv_in_channels L) * unat (conv_window_size L)
            * unat (conv_window_size L) < 2 ^ 32"
  shows "length (conv_Wbin L)
        = unat (conv_out_channels L) * unat (conv_in_channels L) * unat (conv_window_size L)
            * unat (conv_window_size L)"
  using assms by (simp add: conv_wf_def unat_mult4_32)

lemma valid_out_dim:
  fixes w k :: "32 word"
  assumes "0 < unat k" "unat k \<le> unat w"
  shows "unat (w - k + 1) = unat w - unat k + 1"
proof -
  have "k \<le> w" using assms(2) by (simp add: word_le_nat_alt)
  then have 1: "unat (w - k) = unat w - unat k" by (rule unat_sub)
  have "unat w - unat k + 1 < 2 ^ 32"
    using assms unat_lt_32 [of w] by simp
  then have "unat (w - k) + unat (1 :: 32 word) < 2 ^ LENGTH(32)"
    by (simp add: 1)
  then have "unat (w - k + 1) = unat (w - k) + unat (1 :: 32 word)"
    by (simp only: unat_add_lem [THEN iffD1])
  then show ?thesis by (simp add: 1)
qed

lemma conv_forward_ok:
  fixes L in_raw worker_index
  defines "k \<equiv> unat (conv_window_size L)" and "IC \<equiv> unat (conv_in_channels L)"
    and "OC \<equiv> unat (conv_out_channels L)"
    and "W \<equiv> unat (conv_in_width L)" and "H \<equiv> unat (conv_in_height L)"
    and "OW \<equiv> unat (conv_out_width L)" and "OH \<equiv> unat (conv_out_height L)"
  assumes wf: "conv_wf L"
    and geo: "OW + k = W + 1" "OH + k = H + 1"
    and fits: "OC * IC * k * k < 2 ^ 32" "IC * W * H < 2 ^ 32"
      "OC * OH * OW < 2 ^ 32" "IC * k * k < 2 ^ 31"
    and inp: "IC * W * H \<le> length in_raw"
    and idx: "worker_index < length (conv_output L)"
  shows "\<exists>out'. (\<forall>nxt. conv_forward_propagation nxt L in_raw worker_index
                  = (case nxt of
                       None \<Rightarrow> Inr (out', L\<lparr>conv_output := (conv_output L)[worker_index := out']\<rparr>)
                     | Some f \<Rightarrow> bind_res (f out' worker_index) (\<lambda>r.
                         Inr (r, L\<lparr>conv_output := (conv_output L)[worker_index := out']\<rparr>))))
          \<and> length out' = OC * OH * OW
          \<and> (\<forall>oc < OC. \<forall>oy < OH. \<forall>ox < OW.
                out' ! (oc * OH * OW + oy * OW + ox)
                  = real_of_int (conv_sum L (map (\<lambda>x. x \<ge> 0) in_raw) oc oy ox))"
proof -
  let ?in_bin = "map (\<lambda>x. x \<ge> 0) in_raw"
  let ?out = "conv_output L ! worker_index"
  have store: "length (conv_Wbin L) = OC * IC * k * k"
    using wf fits(1) unfolding OC_def IC_def k_def by (rule conv_store_length)
  have prod: "unat (conv_out_width L) * unat (conv_out_height L) * unat (conv_out_channels L)
      = OC * OH * OW"
    by (simp only: OW_def OH_def OC_def mult.commute mult.left_commute mult.assoc)
  have "unat (conv_out_width L) * unat (conv_out_height L) * unat (conv_out_channels L) < 2 ^ 32"
    using fits(3) by (simp only: prod)
  then have "unat (conv_out_width L * conv_out_height L * conv_out_channels L)
      = unat (conv_out_width L) * unat (conv_out_height L) * unat (conv_out_channels L)"
    by (rule unat_mult3_32)
  then have u: "unat (conv_out_width L * conv_out_height L * conv_out_channels L) = OC * OH * OW"
    by (simp only: prod)
  have "length ?out = unat (conv_out_width L * conv_out_height L * conv_out_channels L)"
    using wf idx by (simp add: conv_wf_def list_all_length)
  then have lout: "length ?out = OC * OH * OW"
    by (simp only: u)
  let ?V = "\<lambda>oc oy ox. real_of_int (conv_sum L ?in_bin oc oy ox)"
  let ?row = "\<lambda>oc oy. map (?V oc oy) [0..<OW]"
  let ?block = "\<lambda>oc. concat (map (?row oc) [0..<OH])"
  let ?all = "concat (map ?block [0..<OC])"
  have lblock: "length (?block oc) = OH * OW" for oc
    by (rule length_concat_blocks) simp
  have lall: "length ?all = OC * (OH * OW)"
    using lblock by (rule length_concat_blocks)
  have "conv_kernel L ?in_bin ?out = Inr (?all @ drop (OC * OH * OW) ?out)"
    unfolding OC_def OH_def OW_def
    using geo fits store inp lout
    by (intro conv_kernel_ok) (simp_all add: k_def IC_def OC_def W_def H_def OW_def OH_def)
  then have kern: "conv_kernel L ?in_bin ?out = Inr ?all"
    using lout by simp
  have enc: "float2bipolar in_raw (replicate (length in_raw) False) = Inr ?in_bin"
    by (simp add: float2bipolar_ok)
  have rd: "vread (conv_output L) worker_index = Inr ?out"
    using idx by (simp add: vread_def)
  have run: "conv_forward_propagation nxt L in_raw worker_index
      = (case nxt of
           None \<Rightarrow> Inr (?all, L\<lparr>conv_output := (conv_output L)[worker_index := ?all]\<rparr>)
         | Some f \<Rightarrow> bind_res (f ?all worker_index) (\<lambda>r.
             Inr (r, L\<lparr>conv_output := (conv_output L)[worker_index := ?all]\<rparr>)))" for nxt
    unfolding conv_forward_propagation_def
    by (simp only: enc rd kern bind_res_Inr Let_def)
  have cell: "?all ! (oc * OH * OW + oy * OW + ox) = ?V oc oy ox"
    if "oc < OC" "oy < OH" "ox < OW" for oc oy ox
  proof -
    have j: "oy * OW + ox < OH * OW" using that(2,3) by (rule lin_bound)
    have "?all ! (oc * (OH * OW) + (oy * OW + ox)) = ?block oc ! (oy * OW + ox)"
      using lblock that(1) j by (rule nth_concat_blocks)
    also have "\<dots> = ?row oc oy ! ox"
      by (rule nth_concat_blocks) (use that in simp_all)
    also have "\<dots> = ?V oc oy ox" using that(3) by simp
    finally show ?thesis by (simp add: mult.assoc add.assoc)
  qed
  have "length ?all = OC * OH * OW" using lall by (simp add: mult.assoc)
  with run cell show ?thesis by blast
qed

text \<open>Claim C4: for a convolution layer whose kernel fits into the input
  (\<open>0 < k \<le> in_width\<close>, \<open>k \<le> in_height\<close>), \<open>out_width = in_width - k + 1\<close> and
  \<open>out_height = in_height - k + 1\<close>; and for an input of at least
  \<open>in_channels * in_width * in_height\<close> elements \<open>forward_propagation\<close> writes into the
  worker's output vector the \<open>out_channels * out_height * out_width\<close> elements \<open>out'\<close> in
  which position \<open>oc * out_height * out_width + oy * out_width + ox\<close> holds the raw
  accumulator, with no threshold comparison: the sum over all \<open>(ic, ky, kx)\<close> of the match
  rule applied to weight bit \<open>oc * (k * k * in_channels) + ic * (k * k) + ky * k + kx\<close> and
  input bit \<open>ic * (in_width * in_height) + oy * in_width + ox + ky * in_width + kx\<close>. This
  holds whatever follows the layer: as the last layer it returns \<open>out'\<close>, and with a next
  layer it hands \<open>out'\<close> itself to that layer's \<open>forward_propagation\<close> and returns what that
  returns. The sizes are those for which the 32-bit index products do not wrap around and
  the \<open>int\<close> accumulator does not overflow.\<close>

theorem conv_forward_indexing:
  fixes L in_raw worker_index
  defines "k \<equiv> unat (conv_window_size L)" and "IC \<equiv> unat (conv_in_channels L)"
    and "OC \<equiv> unat (conv_out_channels L)"
    and "W \<equiv> unat (conv_in_width L)" and "H \<equiv> unat (conv_in_height L)"
  assumes wf: "conv_wf L"
    and kernel: "0 < k" "k \<le> W" "k \<le> H"
    and fits: "OC * IC * k * k < 2 ^ 32" "IC * W * H < 2 ^ 32"
      "OC * (H - k + 1) * (W - k + 1) < 2 ^ 32" "IC * k * k < 2 ^ 31"
    and inp: "IC * W * H \<le> length in_raw"
    and idx: "worker_index < length (conv_output L)"
  shows "unat (conv_out_width L) = W - k + 1 \<and> unat (conv_out_height L) = H - k + 1
     \<and> (\<exists>out'. (\<forall>nxt. conv_forward_propagation nxt L in_raw worker_index
                  = (case nxt of
                       None \<Rightarrow> Inr (out', L\<lparr>conv_output := (conv_output L)[worker_index := out']\<rparr>)
                     | Some f \<Rightarrow> bind_res (f out' worker_index) (\<lambda>r.
                         Inr (r, L\<lparr>conv_output := (conv_output L)[worker_index := out']\<rparr>))))
          \<and> length out' = OC * (H - k + 1) * (W - k + 1)
          \<and> (\<forall>oc < OC. \<forall>oy < H - k + 1. \<forall>ox < W - k + 1.
                out' ! (oc * (H - k + 1) * (W - k + 1) + oy * (W - k + 1) + ox)
                  = real_of_int (conv_sum L (map (\<lambda>x. x \<ge> 0) in_raw) oc oy ox)))"
proof -
  have ow: "unat (conv_out_width L) = W - k + 1" and oh: "unat (conv_out_height L) = H - k + 1"
    using wf kernel valid_out_dim [of "conv_window_size L" "conv_in_width L"]
      valid_out_dim [of "conv_window_size L" "conv_in_height L"]
    by (simp_all add: conv_wf_def k_def W_def H_def)
  have geo: "unat (conv_out_width L) + k = W + 1" "unat (conv_out_height L) + k = H + 1"
    using kernel by (simp_all add: ow oh)
  have fit3: "OC * unat (conv_out_height L) * unat (conv_out_width L) < 2 ^ 32"
    using fits(3) by (simp only: ow oh)
  have "\<exists>out'. (\<forall>nxt. conv_forward_propagation nxt L in_raw worker_index
                  = (case nxt of
                       None \<Rightarrow> Inr (out', L\<lparr>conv_output := (conv_output L)[worker_index := out']\<rparr>)
                     | Some f \<Rightarrow> bind_res (f out' worker_index) (\<lambda>r.
                         Inr (r, L\<lparr>conv_output := (conv_output L)[worker_index := out']\<rparr>))))
          \<and> length out' = OC * unat (conv_out_height L) * unat (conv_out_width L)
          \<and> (\<forall>oc < OC. \<forall>oy < unat (conv_out_height L). \<forall>ox < unat (conv_out_width L).
                out' ! (oc * unat (conv_out_height L) * unat (conv_out_width L)
                         + oy * unat (conv_out_width L) + ox)
                  = real_of_int (conv_sum L (map (\<lambda>x. x \<ge> 0) in_raw) oc oy ox))"
    unfolding OC_def
    using wf geo fits(1,2) fit3 fits(4) inp idx
    by (intro conv_forward_ok) (simp_all only: k_def IC_def OC_def W_def H_def)
  then have "\<exists>out'. (\<forall>nxt. conv_forward_propagation nxt L in_raw worker_index
                  = (case nxt of
                       None \<Rightarrow> Inr (out', L\<lparr>conv_output := (conv_output L)[worker_index := out']\<rparr>)
                     | Some f \<Rightarrow> bind_res (f out' worker_index) (\<lambda>r.
                         Inr (r, L\<lparr>conv_output := (conv_output L)[worker_index := out']\<rparr>))))
          \<and> length out' = OC * (H - k + 1) * (W - k + 1)
          \<and> (\<forall>oc < OC. \<forall>oy < H - k + 1. \<forall>ox < W - k + 1.
                out' ! (oc * (H - k + 1) * (W - k + 1) + oy * (W - k + 1) + ox)
                  = real_of_int (conv_sum L (map (\<lambda>x. x \<ge> 0) in_raw) oc oy ox))"
    by (simp only: ow oh)
  with ow oh show ?thesis by (intro conjI)
qed

lemma conv_example_run:
  "conv_forward_propagation None conv_example [1, - 1, 1, - 1, 1, - 1, 1, - 1, 1] 0
     = Inr ([4, - 4, - 4, 4], conv_example\<lparr>conv_output := [[4, - 4, - 4, 4]]\<rparr>)"
  by (simp add: conv_forward_propagation_def conv_kernel_def conv_acc_def float2bipolar_def
      output_ind_def output_base_def weight_ind_def weight_base_def input_ind_def input_base_def
      int_add_def in_int_range_def match_rule_def signed_step_def popcount_step_def
      vread_def vwrite_def conv_example_def upt_rec)


theorem conv_forward_indexing_witness:
  "conv_wf conv_example
   \<and> 0 < unat (conv_window_size conv_example)
   \<and> unat (conv_window_size conv_example) \<le> unat (conv_in_width conv_example)
   \<and> unat (conv_window_size conv_example) \<le> unat (conv_in_height conv_example)
   \<and> unat (conv_in_channels conv_example) * unat (conv_in_width conv_example)
        * unat (conv_in_height conv_example) \<le> length [1, - 1, 1, - 1, 1, - 1, 1, - 1, 1 :: real]
   \<and> 0 < length (conv_output conv_example)
   \<and> unat (conv_out_width conv_example) = 2 \<and> unat (conv_out_height conv_example) = 2
   \<and> conv_forward_propagation None conv_example [1, - 1, 1, - 1, 1, - 1, 1, - 1, 1] 0
       = Inr ([4, - 4, - 4, 4], conv_example\<lparr>conv_output := [[4, - 4, - 4, 4]]\<rparr>)
   \<and> conv_forward_propagation (Some (\<lambda>v i. Inr (map (\<lambda>x. 2 * x + real i) v))) conv_example
         [1, - 1, 1, - 1, 1, - 1, 1, - 1, 1] 0
       = Inr ([8, - 8, - 8, 8], conv_example\<lparr>conv_output := [[4, - 4, - 4, 4]]\<rparr>)
   \<and> conv_sum conv_example (map (\<lambda>x. x \<ge> 0) [1, - 1, 1, - 1, 1, - 1, 1, - 1, 1 :: real]) 0 0 1 = - 4
   \<and> conv_sum conv_example (map (\<lambda>x. x \<ge> 0) [1, - 1, 1, - 1, 1, - 1, 1, - 1, 1 :: real]) 0 1 1 = 4"
proof -
  let ?inp = "[1, - 1, 1, - 1, 1, - 1, 1, - 1, 1 :: real]"
  have h: "conv_wf conv_example"
    "0 < unat (conv_window_size conv_example)"
    "unat (conv_window_size conv_example) \<le> unat (conv_in_width conv_example)"
    "unat (conv_window_size conv_example) \<le> unat (conv_in_height conv_example)"
    "unat (conv_out_channels conv_example) * unat (conv_in_channels conv_example)
       * unat (conv_window_size conv_example) * unat (conv_window_size conv_example) < 2 ^ 32"
    "unat (conv_in_channels conv_example) * unat (conv_in_width conv_example)
       * unat (conv_in_height conv_example) < 2 ^ 32"
    "unat (conv_out_channels conv_example)
       * (unat (conv_in_height conv_example) - unat (conv_window_size conv_example) + 1)
       * (unat (conv_in_width conv_example) - unat (conv_window_size conv_example) + 1) < 2 ^ 32"
    "unat (conv_in_channels conv_example) * unat (conv_window_size conv_example)
       * unat (conv_window_size conv_example) < 2 ^ 31"
    "unat (conv_in_channels conv_example) * unat (conv_in_width conv_example)
       * unat (conv_in_height conv_example) \<le> length ?inp"
    "0 < length (conv_output conv_example)"
    by (simp_all add: conv_wf_def conv_example_def)
  have dims: "unat (conv_out_channels conv_example) = 1"
    "unat (conv_in_height conv_example) - unat (conv_window_size conv_example) + 1 = 2"
    "unat (conv_in_width conv_example) - unat (conv_window_size conv_example) + 1 = 2"
    by (simp_all add: conv_example_def)
  from conv_forward_indexing [OF h]
  obtain out' where ow: "unat (conv_out_width conv_example) = 2"
    and oh: "unat (conv_out_height conv_example) = 2"
    and runs: "\<forall>nxt. conv_forward_propagation nxt conv_example ?inp 0
        = (case nxt of
             None \<Rightarrow> Inr (out', conv_example\<lparr>conv_output := (conv_output conv_example)[0 := out']\<rparr>)
           | Some f \<Rightarrow> bind_res (f out' 0) (\<lambda>r.
               Inr (r, conv_example\<lparr>conv_output := (conv_output conv_example)[0 := out']\<rparr>)))"
    and cells: "\<forall>oc < 1. \<forall>oy < 2. \<forall>ox < 2.
        out' ! (oc * 2 * 2 + oy * 2 + ox)
          = real_of_int (conv_sum conv_example (map (\<lambda>x. x \<ge> 0) ?inp) oc oy ox)"
    unfolding dims by blast
  have "conv_forward_propagation None conv_example ?inp 0
      = Inr (out', conv_example\<lparr>conv_output := (conv_output conv_example)[0 := out']\<rparr>)"
    using runs [rule_format, of None] by simp
  then have out': "out' = [4, - 4, - 4, 4]"
    by (simp add: conv_example_run)
  have "conv_forward_propagation (Some (\<lambda>v i. Inr (map (\<lambda>x. 2 * x + real i) v))) conv_example ?inp 0
      = bind_res (Inr (map (\<lambda>x. 2 * x + real (0 :: nat)) out')) (\<lambda>r.
          Inr (r, conv_example\<lparr>conv_output := (conv_output conv_example)[0 := out']\<rparr>))"
    using runs [rule_format, of "Some (\<lambda>v i. Inr (map (\<lambda>x. 2 * x + real i) v))"] by simp
  then have next_run:
    "conv_forward_propagation (Some (\<lambda>v i. Inr (map (\<lambda>x. 2 * x + real i) v))) conv_example ?inp 0
      = Inr ([8, - 8, - 8, 8], conv_example\<lparr>conv_output := [[4, - 4, - 4, 4]]\<rparr>)"
    unfolding out' by (simp add: conv_example_def)
  have "out' ! (0 * 2 * 2 + 0 * 2 + 1)
      = real_of_int (conv_sum conv_example (map (\<lambda>x. x \<ge> 0) ?inp) 0 0 1)"
    by (rule cells [rule_format]) simp_all
  then have c1: "conv_sum conv_example (map (\<lambda>x. x \<ge> 0) ?inp) 0 0 1 = - 4"
    unfolding out' by simp
  have "out' ! (0 * 2 * 2 + 1 * 2 + 1)
      = real_of_int (conv_sum conv_example (map (\<lambda>x. x \<ge> 0) ?inp) 0 1 1)"
    by (rule cells [rule_format]) simp_all
  then have c2: "conv_sum conv_example (map (\<lambda>x. x \<ge> 0) ?inp) 0 1 1 = 4"
    unfolding out' by simp
  show ?thesis
    using h(1-4,9,10) ow oh conv_example_run next_run c1 c2 by blast
qed

end
